theory Spec2Isabelle
  imports Main
begin

section \<open>Characters and strings as the analyser sees them\<close>

text \<open>
  A text is a list of characters; a character stands for the code point of the same
  number (0 to 255).  On that range lowercasing keeps the length of a text, and the
  three character classes below are the ones the interpreter uses: the class of word
  characters of the regular expression engine (alphanumeric or underscore), the
  whitespace removed by \<^verbatim>\<open>strip\<close>, and the upper-case letters moved by \<^verbatim>\<open>lower\<close>.
\<close>

definition word_char :: "char \<Rightarrow> bool" where
  "word_char c = (let n = (of_char c :: nat) in
     (48 \<le> n \<and> n \<le> 57) \<or> (65 \<le> n \<and> n \<le> 90) \<or> n = 95 \<or> (97 \<le> n \<and> n \<le> 122)
     \<or> n = 170 \<or> n = 178 \<or> n = 179 \<or> n = 181 \<or> n = 185 \<or> n = 186
     \<or> (188 \<le> n \<and> n \<le> 190) \<or> (192 \<le> n \<and> n \<le> 214)
     \<or> (216 \<le> n \<and> n \<le> 246) \<or> (248 \<le> n \<and> n \<le> 255))"

definition apostrophe :: char where
  "apostrophe = CHR 0x27"

definition blank :: char where
  "blank = CHR 0x20"

text \<open>The character class \<^verbatim>\<open>[\w']\<close> of the tokenizer's pattern.\<close>

definition token_char :: "char \<Rightarrow> bool" where
  "token_char c = (word_char c \<or> c = apostrophe)"

text \<open>
  The characters \<^verbatim>\<open>str.isspace\<close> accepts, the lowercasing of one character, and
  \<^verbatim>\<open>str.lower\<close> and \<^verbatim>\<open>str.strip\<close> on a text.
\<close>

definition space_char :: "char \<Rightarrow> bool" where
  "space_char c = (let n = (of_char c :: nat) in
     (9 \<le> n \<and> n \<le> 13) \<or> (28 \<le> n \<and> n \<le> 32) \<or> n = 133 \<or> n = 160)"

definition lower_char :: "char \<Rightarrow> char" where
  "lower_char c = (let n = (of_char c :: nat) in
     if (65 \<le> n \<and> n \<le> 90) \<or> (192 \<le> n \<and> n \<le> 214) \<or> (216 \<le> n \<and> n \<le> 222)
     then char_of (n + 32) else c)"

definition lower :: "string \<Rightarrow> string" where
  "lower s = map lower_char s"

definition strip :: "string \<Rightarrow> string" where
  "strip s = rev (dropWhile space_char (rev (dropWhile space_char s)))"

text \<open>
  \<^verbatim>\<open>s.find(sub, start)\<close>: the lowest index from \<open>start\<close> on at which \<open>sub\<close> occurs in
  \<open>s\<close>, and \<open>None\<close> for the result \<^verbatim>\<open>-1\<close>.
\<close>

definition find_from :: "string \<Rightarrow> string \<Rightarrow> nat \<Rightarrow> nat option" where
  "find_from s sub start =
     List.find (\<lambda>i. take (length sub) (drop i s) = sub) [start ..< Suc (length s) - length sub]"

section \<open>The lexicon\<close>

text \<open>
  The three sets of words are lists here, used through membership only; the phrase
  table keeps the order of its items.
\<close>

definition POSITIVE_WORDS :: "string list" where
  "POSITIVE_WORDS = [''good'', ''great'', ''excellent'', ''amazing'', ''delicious'', ''happy'',
     ''love'', ''like'', ''wonderful'', ''fantastic'', ''nice'', ''pleasant'', ''satisfied'',
     ''tasty'', ''fresh'', ''awesome'', ''enjoy'', ''enjoyed'', ''enjoyable'', ''delightful'']"

definition NEGATIVE_WORDS :: "string list" where
  "NEGATIVE_WORDS = [''bad'', ''terrible'', ''awful'', ''horrible'', ''disgusting'', ''sad'',
     ''hate'', ''dislike'', ''worst'', ''poor'', ''nasty'', ''unpleasant'', ''unsatisfied'',
     ''stale'', ''bland'', ''cold'', ''overcooked'', ''undercooked'']"

definition NEGATIONS :: "string list" where
  "NEGATIONS = [''not'', ''no'', ''never'', ''isn't'', ''wasn't'', ''aren't'', ''don't'',
     ''doesn't'', ''didn't'', ''can't'', ''won't'', ''n't'']"

definition PHRASE_SENTIMENT :: "(string \<times> int) list" where
  "PHRASE_SENTIMENT = [(''good taste'', - 2)]"

section \<open>The tokenizer\<close>

text \<open>
  \<^verbatim>\<open>re.findall(r"\b[\w']+\b", text.lower())\<close>.  The scan carries the character before
  the current position (\<open>None\<close> at the start of the text).  \<^verbatim>\<open>\b\<close> holds between two
  positions of which exactly one is a word character; the ends of the text count as
  no word character.
\<close>

fun is_word :: "char option \<Rightarrow> bool" where
  "is_word None = False"
| "is_word (Some c) = word_char c"

definition word_boundary :: "char option \<Rightarrow> char option \<Rightarrow> bool" where
  "word_boundary prev next_char = (is_word prev \<noteq> is_word next_char)"

fun first_char :: "string \<Rightarrow> char option" where
  "first_char [] = None"
| "first_char (c # cs) = Some c"

text \<open>
  The greedy \<^verbatim>\<open>[\w']+\<close> followed by the closing \<^verbatim>\<open>\b\<close>, after the character \<open>c\<close> has been
  consumed: the engine first tries to consume one more character of the class, and only
  when the rest of the pattern fails from there does it try to close the match at the
  place where it stands.  The result is the number of further characters consumed.
\<close>

fun greedy :: "char \<Rightarrow> string \<Rightarrow> nat option" where
  "greedy c [] = (if word_boundary (Some c) None then Some 0 else None)"
| "greedy c (d # ds) =
     (case (if token_char d then greedy d ds else None) of
        Some n \<Rightarrow> Some (Suc n)
      | None \<Rightarrow> if word_boundary (Some c) (Some d) then Some 0 else None)"

text \<open>
  One attempt of the pattern \<^verbatim>\<open>\b[\w']+\b\<close> at the current position; the result is the
  length of the match.
\<close>

fun match_here :: "char option \<Rightarrow> string \<Rightarrow> nat option" where
  "match_here prev [] = None"
| "match_here prev (c # cs) =
     (if word_boundary prev (Some c) \<and> token_char c
      then map_option Suc (greedy c cs) else None)"

text \<open>
  The scan of \<^verbatim>\<open>findall\<close>: after a match it resumes at the end of the match, after a
  failed attempt one character further.
\<close>

function findall :: "char option \<Rightarrow> string \<Rightarrow> string list" where
  "findall prev [] = []"
| "findall prev (c # cs) =
     (case match_here prev (c # cs) of
        Some n \<Rightarrow> take n (c # cs) # findall (Some ((c # cs) ! (n - 1))) (drop n (c # cs))
      | None \<Rightarrow> findall (Some c) cs)"
  by pat_completeness auto

lemma match_here_pos: "match_here prev s = Some n \<Longrightarrow> 0 < n"
  by (cases s) (auto split: if_splits)

termination findall
proof (relation "measure (\<lambda>(b, s). length s)")
  show "wf (measure (\<lambda>(b, s). length s))" by simp
next
  fix prev c cs n
  assume "match_here prev (c # cs) = Some n"
  then have "0 < n" by (rule match_here_pos)
  then show "((Some ((c # cs) ! (n - 1)), drop n (c # cs)), (prev, c # cs))
               \<in> measure (\<lambda>(b, s). length s)"
    by simp
next
  fix prev c cs
  show "((Some c, cs), (prev, c # cs)) \<in> measure (\<lambda>(b, s). length s)" by simp
qed

definition tokenize :: "string \<Rightarrow> string list" where
  "tokenize text = findall None (lower text)"

section \<open>Scoring\<close>

text \<open>
  The \<^verbatim>\<open>while True\<close> loop that scores and masks one phrase.  It may fail to return
  (an empty phrase is found at \<open>start\<close> for ever), so its result is optional.
\<close>

partial_function (option) mask_phrase ::
  "string \<Rightarrow> int \<Rightarrow> string \<Rightarrow> int \<Rightarrow> nat \<Rightarrow> (string \<times> int) option" where
  "mask_phrase phrase phrase_weight working_text score start =
     (case find_from working_text phrase start of
        None \<Rightarrow> Some (working_text, score)
      | Some idx \<Rightarrow>
          mask_phrase phrase phrase_weight
            (take idx working_text @ replicate (length phrase) blank
               @ drop (idx + length phrase) working_text)
            (score + phrase_weight) (idx + length phrase))"

declare mask_phrase.simps [code]

text \<open>The \<^verbatim>\<open>for\<close> loop over the items of the phrase table, in the order of the table.\<close>

fun apply_phrases :: "(string \<times> int) list \<Rightarrow> string \<Rightarrow> int \<Rightarrow> (string \<times> int) option" where
  "apply_phrases [] working_text score = Some (working_text, score)"
| "apply_phrases ((phrase, phrase_weight) # rest) working_text score =
     (case mask_phrase phrase phrase_weight working_text score 0 of
        None \<Rightarrow> None
      | Some (working_text', score') \<Rightarrow> apply_phrases rest working_text' score')"

text \<open>The variables the loop over the tokens updates.\<close>

record scan_state =
  score :: int
  negate_window :: int
  after_but :: bool

text \<open>
  The body of the loop over the tokens.  The set of negation markers is a parameter,
  instantiated with \<open>NEGATIONS\<close> by the analyser.
\<close>

definition token_step :: "string list \<Rightarrow> scan_state \<Rightarrow> string \<Rightarrow> scan_state" where
  "token_step negations st token =
     (if token = ''but'' then st\<lparr>after_but := True\<rparr>
      else if token \<in> set negations then st\<lparr>negate_window := 3\<rparr>
      else
        let word_delta = (if token \<in> set POSITIVE_WORDS then 1
                          else if token \<in> set NEGATIVE_WORDS then - 1 else 0);
            st1 = (if word_delta \<noteq> 0
                   then let d1 = (if negate_window st > 0 then word_delta * (- 1) else word_delta);
                            d2 = (if after_but st then d1 * 2 else d1)
                        in st\<lparr>score := score st + d2\<rparr>
                   else st)
        in if negate_window st1 > 0 then st1\<lparr>negate_window := negate_window st1 - 1\<rparr> else st1)"

definition scan_tokens :: "string list \<Rightarrow> int \<Rightarrow> string list \<Rightarrow> scan_state" where
  "scan_tokens negations score0 tokens =
     foldl (token_step negations) \<lparr>score = score0, negate_window = 0, after_but = False\<rparr> tokens"

text \<open>The choice of the label at the end of \<^verbatim>\<open>analyze_sentiment\<close>.\<close>

definition label_of :: "int \<Rightarrow> string" where
  "label_of s = (if s > 0 then ''positive'' else if s < 0 then ''negative'' else ''neutral'')"

text \<open>
  The score the analyser holds when the loop over the tokens ends: the statements of
  \<^verbatim>\<open>analyze_sentiment\<close> after the guard on blank input and before the choice of the label.
\<close>

definition final_score :: "string list \<Rightarrow> string \<Rightarrow> int option" where
  "final_score negations text =
     (case apply_phrases PHRASE_SENTIMENT (lower text) 0 of
        None \<Rightarrow> None
      | Some (working_text, score1) \<Rightarrow>
          Some (score (scan_tokens negations score1 (tokenize working_text))))"

text \<open>
  The analyser, with the guard on empty and whitespace-only input in front.  \<open>None\<close>
  stands for a call that does not return.
\<close>

definition analyze_with :: "string list \<Rightarrow> string \<Rightarrow> string option" where
  "analyze_with negations text =
     (if text = [] \<or> strip text = [] then Some ''neutral''
      else map_option label_of (final_score negations text))"

definition analyze_sentiment :: "string \<Rightarrow> string option" where
  "analyze_sentiment text = analyze_with NEGATIONS text"

section \<open>Notions the statements are written in\<close>

text \<open>
  None of the definitions of this section is part of the analyser.  The first group
  describes the phrase loop from outside: a phrase occurs at an index of a text; a span
  of a text is overwritten by blanks; the indices found by a scan that starts again just
  after the end of each match; the text with all of them overwritten.
\<close>

definition occurs_at :: "string \<Rightarrow> string \<Rightarrow> nat \<Rightarrow> bool" where
  "occurs_at s sub i = (i + length sub \<le> length s \<and> take (length sub) (drop i s) = sub)"

definition mask_at :: "string \<Rightarrow> nat \<Rightarrow> nat \<Rightarrow> string" where
  "mask_at s idx n = take idx s @ replicate n blank @ drop (idx + n) s"

lemma find_from_Some:
  assumes "find_from s sub start = Some i"
  shows "start \<le> i" and "i + length sub \<le> length s" and "take (length sub) (drop i s) = sub"
    and "\<And>j. start \<le> j \<Longrightarrow> j < i \<Longrightarrow> take (length sub) (drop j s) \<noteq> sub"
proof -
  let ?xs = "[start ..< Suc (length s) - length sub]"
  from assms obtain k where k: "k < length ?xs" "take (length sub) (drop (?xs ! k) s) = sub"
      "i = ?xs ! k" "\<forall>j<k. take (length sub) (drop (?xs ! j) s) \<noteq> sub"
    unfolding find_from_def find_Some_iff by blast
  from k(1) have ik: "i = start + k" and lt: "start + k < Suc (length s) - length sub"
    using k(3) by auto
  show "start \<le> i" using ik by simp
  show "i + length sub \<le> length s" using ik lt by simp
  show "take (length sub) (drop i s) = sub" using k(2,3) by simp
  fix j assume j: "start \<le> j" "j < i"
  then have "j - start < k" using ik by simp
  with k(4) have "take (length sub) (drop (?xs ! (j - start)) s) \<noteq> sub" by blast
  moreover have "?xs ! (j - start) = j" using j ik lt by simp
  ultimately show "take (length sub) (drop j s) \<noteq> sub" by simp
qed

function scan_occurrences :: "string \<Rightarrow> string \<Rightarrow> nat \<Rightarrow> nat list" where
  "scan_occurrences s sub start =
     (if sub = [] then []
      else case find_from s sub start of
             None \<Rightarrow> []
           | Some i \<Rightarrow> i # scan_occurrences s sub (i + length sub))"
  by pat_completeness auto

termination scan_occurrences
proof (relation "measure (\<lambda>(s, sub, start). Suc (length s) - start)")
  show "wf (measure (\<lambda>(s, sub, start). Suc (length s) - start))" by simp
next
  fix s sub :: string and start i :: nat
  assume "sub \<noteq> []" and f: "find_from s sub start = Some i"
  then obtain m where "length sub = Suc m" by (cases sub) auto
  with find_from_Some(1,2) [OF f]
  show "((s, sub, i + length sub), (s, sub, start)) \<in> measure (\<lambda>(s, sub, start). Suc (length s) - start)"
    by simp
qed

declare scan_occurrences.simps [simp del]

definition mask_all :: "string \<Rightarrow> nat \<Rightarrow> nat list \<Rightarrow> string" where
  "mask_all s n occs = foldl (\<lambda>t i. mask_at t i n) s occs"

text \<open>
  The occurrences of the only phrase of the table found in the lowercased text, and the
  lowercased text with these occurrences overwritten.
\<close>

definition phrase_occurrences :: "string \<Rightarrow> nat list" where
  "phrase_occurrences text = scan_occurrences (lower text) ''good taste'' 0"

definition masked_text :: "string \<Rightarrow> string" where
  "masked_text text = mask_all (lower text) (length ''good taste'') (phrase_occurrences text)"

text \<open>
  The second group describes the tokens: the maximal runs of the characters of a class,
  in the order of the text, and a run without the apostrophes at its two ends.
\<close>

function runs :: "('a \<Rightarrow> bool) \<Rightarrow> 'a list \<Rightarrow> 'a list list" where
  "runs P [] = []"
| "runs P (c # cs) = (if P c then (c # takeWhile P cs) # runs P (dropWhile P cs) else runs P cs)"
  by pat_completeness auto

termination runs
proof (relation "measure (\<lambda>(P, s). length s)")
  show "wf (measure (\<lambda>(P, s). length s))" by simp
next
  fix P :: "'a \<Rightarrow> bool" and c cs
  have "length (dropWhile P cs) \<le> length cs" by (rule length_dropWhile_le)
  then show "((P, dropWhile P cs), (P, c # cs)) \<in> measure (\<lambda>(P, s). length s)" by simp
next
  fix P :: "'a \<Rightarrow> bool" and c cs
  show "((P, cs), (P, c # cs)) \<in> measure (\<lambda>(P, s). length s)" by simp
qed

definition strip_apostrophes :: "string \<Rightarrow> string" where
  "strip_apostrophes s =
     rev (dropWhile (\<lambda>c. c = apostrophe) (rev (dropWhile (\<lambda>c. c = apostrophe) s)))"

definition trimmed_runs :: "string \<Rightarrow> string list" where
  "trimmed_runs s = filter (\<lambda>t. t \<noteq> []) (map strip_apostrophes (runs token_char s))"

text \<open>
  Auxiliary: a text without its trailing characters that are no word characters; the
  code points moved by lowercasing; what a token adds to the score when no negation
  window is active and no ``but'' has been seen.
\<close>

fun rtrim :: "string \<Rightarrow> string" where
  "rtrim [] = []"
| "rtrim (c # cs) = (if rtrim cs = [] \<and> \<not> word_char c then [] else c # rtrim cs)"

definition is_upper :: "nat \<Rightarrow> bool" where
  "is_upper n = ((65 \<le> n \<and> n \<le> 90) \<or> (192 \<le> n \<and> n \<le> 214) \<or> (216 \<le> n \<and> n \<le> 222))"

definition word_delta :: "string \<Rightarrow> int" where
  "word_delta token = (if token \<in> set POSITIVE_WORDS then 1
                       else if token \<in> set NEGATIVE_WORDS then - 1 else 0)"

section \<open>The scan over the tokens\<close>

lemma but_not_negation: "''but'' \<notin> set NEGATIONS"
  by (simp add: NEGATIONS_def)

lemma positive_word_plain:
  "token \<in> set POSITIVE_WORDS \<Longrightarrow>
     token \<noteq> ''but'' \<and> token \<notin> set NEGATIONS \<and> token \<notin> set NEGATIVE_WORDS"
  by (auto simp: POSITIVE_WORDS_def NEGATIONS_def NEGATIVE_WORDS_def)

lemma negative_word_plain:
  "token \<in> set NEGATIVE_WORDS \<Longrightarrow>
     token \<noteq> ''but'' \<and> token \<notin> set NEGATIONS \<and> token \<notin> set POSITIVE_WORDS"
  by (auto simp: POSITIVE_WORDS_def NEGATIONS_def NEGATIVE_WORDS_def)

lemma step_but: "token_step negations st ''but'' = st\<lparr>after_but := True\<rparr>"
  by (simp add: token_step_def)

lemma step_negation:
  "token \<noteq> ''but'' \<Longrightarrow> token \<in> set negations \<Longrightarrow>
     token_step negations st token = st\<lparr>negate_window := 3\<rparr>"
  by (simp add: token_step_def)

lemma step_window:
  "token \<noteq> ''but'' \<Longrightarrow> token \<notin> set negations \<Longrightarrow>
     negate_window (token_step negations st token) =
       (if negate_window st > 0 then negate_window st - 1 else negate_window st)"
  by (simp add: token_step_def Let_def)

lemma step_after_but:
  "after_but st \<Longrightarrow> after_but (token_step negations st token)"
  by (simp add: token_step_def Let_def)

lemma scan_after_but:
  "after_but st \<Longrightarrow> after_but (foldl (token_step negations) st ts)"
  by (induction ts arbitrary: st) (simp_all add: step_after_but)

lemma window_countdown:
  "\<forall>t \<in> set ts. t \<noteq> ''but'' \<and> t \<notin> set negations \<Longrightarrow> 0 \<le> negate_window st \<Longrightarrow>
     negate_window (foldl (token_step negations) st ts) = max 0 (negate_window st - int (length ts))"
proof (induction ts arbitrary: st)
  case Nil
  then show ?case by simp
next
  case (Cons t ts)
  have w: "negate_window (token_step negations st t) =
       (if negate_window st > 0 then negate_window st - 1 else negate_window st)"
    using Cons.prems(1) by (simp add: step_window)
  then have "0 \<le> negate_window (token_step negations st t)" using Cons.prems(2) by simp
  with Cons.IH [of "token_step negations st t"] Cons.prems(1)
  have "negate_window (foldl (token_step negations) (token_step negations st t) ts) =
      max 0 (negate_window (token_step negations st t) - int (length ts))" by simp
  then show ?case using w Cons.prems(2) by auto
qed

lemma negation_not_but: "token \<in> set NEGATIONS \<Longrightarrow> token \<noteq> ''but''"
  using but_not_negation by auto

lemma step_flag_other:
  "token \<noteq> ''but'' \<Longrightarrow> after_but (token_step negations st token) = after_but st"
  by (simp add: token_step_def Let_def)

lemma step_doubled:
  "token \<noteq> ''but'' \<Longrightarrow> after_but st1 \<Longrightarrow> \<not> after_but st2 \<Longrightarrow>
   negate_window st1 = negate_window st2 \<Longrightarrow>
     score (token_step negations st1 token) - score st1 =
       2 * (score (token_step negations st2 token) - score st2)
     \<and> negate_window (token_step negations st1 token) = negate_window (token_step negations st2 token)"
  by (simp add: token_step_def Let_def)

lemma scan_doubled:
  "after_but st1 \<Longrightarrow> \<not> after_but st2 \<Longrightarrow> negate_window st1 = negate_window st2 \<Longrightarrow>
     score (foldl (token_step negations) st1 ts) - score st1 =
       2 * (score (foldl (token_step negations) st2 (filter (\<lambda>t. t \<noteq> ''but'') ts)) - score st2)"
proof (induction ts arbitrary: st1 st2)
  case Nil
  then show ?case by simp
next
  case (Cons t ts)
  show ?case
  proof (cases "t = ''but''")
    case True
    have "token_step negations st1 t = st1"
      using True Cons.prems(1) by (simp add: step_but)
    then show ?thesis using True Cons.IH [OF Cons.prems] by simp
  next
    case False
    let ?s1 = "token_step negations st1 t" and ?s2 = "token_step negations st2 t"
    have d: "score ?s1 - score st1 = 2 * (score ?s2 - score st2)"
      and w: "negate_window ?s1 = negate_window ?s2"
      using step_doubled [OF False Cons.prems] by simp_all
    have f1: "after_but ?s1" using Cons.prems(1) by (rule step_after_but)
    have f2: "\<not> after_but ?s2" using False Cons.prems(2) by (simp add: step_flag_other)
    from Cons.IH [OF f1 f2 w] d False show ?thesis by simp
  qed
qed

lemma scan_tokens_append:
  "scan_tokens negations s0 (xs @ ys) =
     foldl (token_step negations) (scan_tokens negations s0 xs) ys"
  by (simp add: scan_tokens_def)

lemma scan_tokens_snoc:
  "scan_tokens negations s0 (xs @ [t]) = token_step negations (scan_tokens negations s0 xs) t"
  by (simp add: scan_tokens_def)

lemma fold_no_but_flag:
  "''but'' \<notin> set ts \<Longrightarrow> \<not> after_but st \<Longrightarrow> \<not> after_but (foldl (token_step negations) st ts)"
proof (induction ts arbitrary: st)
  case Nil
  then show ?case by simp
next
  case (Cons t ts)
  have "t \<noteq> ''but''" using Cons.prems(1) by auto
  then have "\<not> after_but (token_step negations st t)"
    using Cons.prems(2) by (simp add: step_flag_other)
  then show ?case using Cons.IH Cons.prems(1) by simp
qed

lemma scan_no_but_flag:
  "''but'' \<notin> set ts \<Longrightarrow> \<not> after_but (scan_tokens negations s0 ts)"
  unfolding scan_tokens_def by (rule fold_no_but_flag) simp_all

text \<open>
  Claim C2.  In the scan of the analyser over any token sequence, a token that is a
  negation marker leaves the score and the flag alone and sets the negation window to
  3, whatever the window was; it does not decrement the window it has just set.  A
  later token that is neither ``but'' nor a negation marker decrements an active window
  by exactly one, whether or not it carries polarity, and leaves the flag alone.  So
  after a marker and \<open>k\<close> such tokens the window is \<open>3 - k\<close>, and 0 from the third on.
  The same holds of one step of the loop from any state.  In ``not a very good'' the
  word is still inside the window, in ``not a very really good'' it is not, and in
  ``not a very not really so good'' the second marker has set the window again.
\<close>

theorem negation_window:
  "(token \<in> set NEGATIONS \<longrightarrow>
      scan_tokens NEGATIONS s0 (pre @ [token]) =
        (scan_tokens NEGATIONS s0 pre)\<lparr>negate_window := 3\<rparr>)
   \<and> (token \<noteq> ''but'' \<and> token \<notin> set NEGATIONS
        \<and> 0 < negate_window (scan_tokens NEGATIONS s0 pre) \<longrightarrow>
        negate_window (scan_tokens NEGATIONS s0 (pre @ [token])) =
          negate_window (scan_tokens NEGATIONS s0 pre) - 1
        \<and> after_but (scan_tokens NEGATIONS s0 (pre @ [token])) =
          after_but (scan_tokens NEGATIONS s0 pre))
   \<and> (token \<in> set NEGATIONS \<and> (\<forall>t \<in> set ts. t \<noteq> ''but'' \<and> t \<notin> set NEGATIONS) \<longrightarrow>
        negate_window (scan_tokens NEGATIONS s0 (pre @ token # ts)) = max 0 (3 - int (length ts)))
   \<and> (token \<in> set NEGATIONS \<longrightarrow> token_step NEGATIONS st token = st\<lparr>negate_window := 3\<rparr>)
   \<and> (token \<noteq> ''but'' \<and> token \<notin> set NEGATIONS \<and> 0 < negate_window st \<longrightarrow>
        negate_window (token_step NEGATIONS st token) = negate_window st - 1)
   \<and> (token \<in> set NEGATIONS \<and> (\<forall>t \<in> set ts. t \<noteq> ''but'' \<and> t \<notin> set NEGATIONS) \<longrightarrow>
        negate_window (foldl (token_step NEGATIONS) st (token # ts)) = max 0 (3 - int (length ts)))
   \<and> final_score NEGATIONS ''not a very good'' = Some (- 1)
   \<and> final_score NEGATIONS ''not a very really good'' = Some 1
   \<and> final_score NEGATIONS ''not a very not really so good'' = Some (- 1)"
proof -
  let ?S = "scan_tokens NEGATIONS s0"
  have step_neg: "token_step NEGATIONS u token = u\<lparr>negate_window := 3\<rparr>"
    if "token \<in> set NEGATIONS" for u
    using that by (simp add: step_negation negation_not_but)
  have count: "negate_window (foldl (token_step NEGATIONS) u (token # ts)) = max 0 (3 - int (length ts))"
    if a: "token \<in> set NEGATIONS \<and> (\<forall>t \<in> set ts. t \<noteq> ''but'' \<and> t \<notin> set NEGATIONS)" for u
    using a step_neg [of u] window_countdown [of ts NEGATIONS "u\<lparr>negate_window := 3\<rparr>"] by simp
  have 1: "token \<in> set NEGATIONS \<longrightarrow> ?S (pre @ [token]) = (?S pre)\<lparr>negate_window := 3\<rparr>"
    using step_neg by (simp add: scan_tokens_snoc)
  have 2: "token \<noteq> ''but'' \<and> token \<notin> set NEGATIONS \<and> 0 < negate_window (?S pre) \<longrightarrow>
        negate_window (?S (pre @ [token])) = negate_window (?S pre) - 1
        \<and> after_but (?S (pre @ [token])) = after_but (?S pre)"
    by (simp add: scan_tokens_snoc step_window step_flag_other)
  have 3: "token \<in> set NEGATIONS \<and> (\<forall>t \<in> set ts. t \<noteq> ''but'' \<and> t \<notin> set NEGATIONS) \<longrightarrow>
        negate_window (?S (pre @ token # ts)) = max 0 (3 - int (length ts))"
    using count [of "?S pre"] by (simp only: scan_tokens_append) blast
  have 4: "token \<in> set NEGATIONS \<longrightarrow> token_step NEGATIONS st token = st\<lparr>negate_window := 3\<rparr>"
    using step_neg by blast
  have 5: "token \<noteq> ''but'' \<and> token \<notin> set NEGATIONS \<and> 0 < negate_window st \<longrightarrow>
        negate_window (token_step NEGATIONS st token) = negate_window st - 1"
    by (simp add: step_window)
  have 6: "token \<in> set NEGATIONS \<and> (\<forall>t \<in> set ts. t \<noteq> ''but'' \<and> t \<notin> set NEGATIONS) \<longrightarrow>
        negate_window (foldl (token_step NEGATIONS) st (token # ts)) = max 0 (3 - int (length ts))"
    using count [of st] by blast
  have 7: "final_score NEGATIONS ''not a very good'' = Some (- 1)" by code_simp
  have 8: "final_score NEGATIONS ''not a very really good'' = Some 1" by code_simp
  have 9: "final_score NEGATIONS ''not a very not really so good'' = Some (- 1)" by code_simp
  from 1 2 3 4 5 6 7 8 9 show ?thesis by (intro conjI)
qed

theorem negation_window_witness:
  "''never'' \<in> set NEGATIONS
   \<and> ''very'' \<noteq> ''but'' \<and> ''very'' \<notin> set NEGATIONS
   \<and> ''good'' \<noteq> ''but'' \<and> ''good'' \<notin> set NEGATIONS
   \<and> scan_tokens NEGATIONS 0 [''bad'', ''never''] = \<lparr>score = - 1, negate_window = 3, after_but = False\<rparr>
   \<and> negate_window (scan_tokens NEGATIONS 0 ([''bad''] @ ''never'' # [''very'', ''good''])) = 1
   \<and> negate_window (scan_tokens NEGATIONS 0 [''not'']) = 3
   \<and> negate_window (scan_tokens NEGATIONS 0 ([''not''] @ [''very''])) = 2
   \<and> token_step NEGATIONS \<lparr>score = 5, negate_window = 1, after_but = False\<rparr> ''never''
       = \<lparr>score = 5, negate_window = 3, after_but = False\<rparr>"
proof -
  have h1: "''never'' \<in> set NEGATIONS" by (simp add: NEGATIONS_def)
  have h2: "\<forall>t \<in> set [''very'', ''good'']. t \<noteq> ''but'' \<and> t \<notin> set NEGATIONS"
    by (simp add: NEGATIONS_def)
  have h3: "''good'' \<noteq> ''but'' \<and> ''good'' \<notin> set NEGATIONS" by (simp add: NEGATIONS_def)
  have h5: "''very'' \<noteq> ''but'' \<and> ''very'' \<notin> set NEGATIONS" by (simp add: NEGATIONS_def)
  have bad: "scan_tokens NEGATIONS 0 [''bad''] = \<lparr>score = - 1, negate_window = 0, after_but = False\<rparr>"
    by code_simp
  have nt: "scan_tokens NEGATIONS 0 [''not''] = \<lparr>score = 0, negate_window = 3, after_but = False\<rparr>"
    by code_simp
  note never = negation_window [of "''never''" 0 "[''bad'']" "[''very'', ''good'']"
      "\<lparr>score = 5, negate_window = 1, after_but = False\<rparr>"]
  have a: "scan_tokens NEGATIONS 0 ([''bad''] @ [''never'']) =
       (scan_tokens NEGATIONS 0 [''bad''])\<lparr>negate_window := 3\<rparr>"
    using never h1 by blast
  have b: "negate_window (scan_tokens NEGATIONS 0 ([''bad''] @ ''never'' # [''very'', ''good''])) =
       max 0 (3 - int (length [''very'', ''good'']))"
    using never h1 h2 by blast
  have e: "token_step NEGATIONS \<lparr>score = 5, negate_window = 1, after_but = False\<rparr> ''never''
       = \<lparr>score = 5, negate_window = 1, after_but = False\<rparr>\<lparr>negate_window := 3\<rparr>"
    using never h1 by blast
  have w: "0 < negate_window (scan_tokens NEGATIONS 0 [''not''])" by (simp only: nt) simp
  have c: "negate_window (scan_tokens NEGATIONS 0 ([''not''] @ [''very''])) =
       negate_window (scan_tokens NEGATIONS 0 [''not'']) - 1"
    using negation_window [of "''very''" 0 "[''not'']" "[]" "\<lparr>score = 5, negate_window = 1, after_but = False\<rparr>"]
      h5 w by blast
  have a': "scan_tokens NEGATIONS 0 [''bad'', ''never''] =
       \<lparr>score = - 1, negate_window = 3, after_but = False\<rparr>"
    using a by (simp only: bad append.simps) simp
  have b': "negate_window (scan_tokens NEGATIONS 0 ([''bad''] @ ''never'' # [''very'', ''good''])) = 1"
    by (simp only: b) simp
  have c': "negate_window (scan_tokens NEGATIONS 0 ([''not''] @ [''very''])) = 2"
    by (simp only: c nt) simp
  have d': "negate_window (scan_tokens NEGATIONS 0 [''not'']) = 3" by (simp only: nt) simp
  have e': "token_step NEGATIONS \<lparr>score = 5, negate_window = 1, after_but = False\<rparr> ''never''
       = \<lparr>score = 5, negate_window = 3, after_but = False\<rparr>"
    by (simp only: e) simp
  from h1 h3 h5 a' b' c' d' e' show ?thesis by blast
qed

text \<open>
  Claim C3.  In the scan of the analyser over any token sequence, the token ``but'' only
  sets the flag: it adds nothing to the score and leaves the negation window as it is.
  The flag is set at every later point of the scan.  What a later token adds to the
  score is twice what it would add from the same state with the flag off; and the
  score gained by all the tokens after a ``but'', further ``but'' tokens included, is
  exactly twice the score the same tokens without their ``but'' tokens would gain with
  the flag off - which, when the ``but'' is the first of the scan, is the score they
  gain in the scan of the text without it.  The same holds of the steps of the loop
  from any state.  The text ``good but bad'' scores \<open>-1\<close> and is labelled negative.
\<close>

theorem after_but_doubling:
  "scan_tokens NEGATIONS s0 (pre @ [''but'']) = (scan_tokens NEGATIONS s0 pre)\<lparr>after_but := True\<rparr>
   \<and> after_but (scan_tokens NEGATIONS s0 (pre @ ''but'' # ts))
   \<and> (token \<noteq> ''but'' \<longrightarrow>
        score (scan_tokens NEGATIONS s0 (pre @ ''but'' # ts @ [token]))
          - score (scan_tokens NEGATIONS s0 (pre @ ''but'' # ts)) =
        2 * (score (token_step NEGATIONS
                     ((scan_tokens NEGATIONS s0 (pre @ ''but'' # ts))\<lparr>after_but := False\<rparr>) token)
             - score (scan_tokens NEGATIONS s0 (pre @ ''but'' # ts))))
   \<and> score (scan_tokens NEGATIONS s0 (pre @ ''but'' # ts)) - score (scan_tokens NEGATIONS s0 pre) =
        2 * (score (foldl (token_step NEGATIONS)
                      ((scan_tokens NEGATIONS s0 pre)\<lparr>after_but := False\<rparr>)
                      (filter (\<lambda>t. t \<noteq> ''but'') ts))
             - score (scan_tokens NEGATIONS s0 pre))
   \<and> (''but'' \<notin> set pre \<longrightarrow>
        score (scan_tokens NEGATIONS s0 (pre @ ''but'' # ts)) - score (scan_tokens NEGATIONS s0 pre) =
        2 * (score (scan_tokens NEGATIONS s0 (pre @ filter (\<lambda>t. t \<noteq> ''but'') ts))
             - score (scan_tokens NEGATIONS s0 pre)))
   \<and> token_step NEGATIONS st ''but'' = st\<lparr>after_but := True\<rparr>
   \<and> (after_but st \<longrightarrow> after_but (foldl (token_step NEGATIONS) st ts))
   \<and> (after_but st \<and> token \<noteq> ''but'' \<longrightarrow>
        score (token_step NEGATIONS st token) - score st =
          2 * (score (token_step NEGATIONS (st\<lparr>after_but := False\<rparr>) token) - score st))
   \<and> (after_but st \<longrightarrow>
        score (foldl (token_step NEGATIONS) st ts) - score st =
          2 * (score (foldl (token_step NEGATIONS) (st\<lparr>after_but := False\<rparr>)
                        (filter (\<lambda>t. t \<noteq> ''but'') ts)) - score st))
   \<and> final_score NEGATIONS ''good but bad'' = Some (- 1)
   \<and> analyze_sentiment ''good but bad'' = Some ''negative''
   \<and> final_score NEGATIONS ''The food is delicious but the service was bad'' = Some (- 1)
   \<and> final_score NEGATIONS ''bad but good but nice'' = Some 3"
proof -
  let ?S = "scan_tokens NEGATIONS s0"
  let ?B = "(?S pre)\<lparr>after_but := True\<rparr>"
  have 1: "?S (pre @ [''but'']) = ?B"
    by (simp add: scan_tokens_snoc step_but)
  have app: "?S (pre @ ''but'' # ts) = foldl (token_step NEGATIONS) ?B ts"
    by (simp add: scan_tokens_append step_but)
  have 2: "after_but (?S (pre @ ''but'' # ts))"
    unfolding app by (rule scan_after_but) simp
  have 3: "token \<noteq> ''but'' \<longrightarrow>
        score (?S (pre @ ''but'' # ts @ [token])) - score (?S (pre @ ''but'' # ts)) =
        2 * (score (token_step NEGATIONS ((?S (pre @ ''but'' # ts))\<lparr>after_but := False\<rparr>) token)
             - score (?S (pre @ ''but'' # ts)))"
  proof
    assume t: "token \<noteq> ''but''"
    have "?S (pre @ ''but'' # ts @ [token]) = token_step NEGATIONS (?S (pre @ ''but'' # ts)) token"
      using scan_tokens_snoc [of NEGATIONS s0 "pre @ ''but'' # ts" token] by simp
    then show "score (?S (pre @ ''but'' # ts @ [token])) - score (?S (pre @ ''but'' # ts)) =
        2 * (score (token_step NEGATIONS ((?S (pre @ ''but'' # ts))\<lparr>after_but := False\<rparr>) token)
             - score (?S (pre @ ''but'' # ts)))"
      using step_doubled [OF t 2, of "(?S (pre @ ''but'' # ts))\<lparr>after_but := False\<rparr>" NEGATIONS]
      by simp
  qed
  have 4: "score (?S (pre @ ''but'' # ts)) - score (?S pre) =
        2 * (score (foldl (token_step NEGATIONS) ((?S pre)\<lparr>after_but := False\<rparr>)
                      (filter (\<lambda>t. t \<noteq> ''but'') ts)) - score (?S pre))"
    unfolding app
    using scan_doubled [of ?B "(?S pre)\<lparr>after_but := False\<rparr>" NEGATIONS ts] by simp
  have 5: "''but'' \<notin> set pre \<longrightarrow>
        score (?S (pre @ ''but'' # ts)) - score (?S pre) =
        2 * (score (?S (pre @ filter (\<lambda>t. t \<noteq> ''but'') ts)) - score (?S pre))"
  proof
    assume "''but'' \<notin> set pre"
    then have "\<not> after_but (?S pre)" by (rule scan_no_but_flag)
    then have "(?S pre)\<lparr>after_but := False\<rparr> = ?S pre" by simp
    with 4 show "score (?S (pre @ ''but'' # ts)) - score (?S pre) =
        2 * (score (?S (pre @ filter (\<lambda>t. t \<noteq> ''but'') ts)) - score (?S pre))"
      by (simp only: scan_tokens_append)
  qed
  have 6: "token_step NEGATIONS st ''but'' = st\<lparr>after_but := True\<rparr>" by (rule step_but)
  have 7: "after_but st \<longrightarrow> after_but (foldl (token_step NEGATIONS) st ts)"
    using scan_after_but by blast
  have 8: "after_but st \<and> token \<noteq> ''but'' \<longrightarrow>
        score (token_step NEGATIONS st token) - score st =
          2 * (score (token_step NEGATIONS (st\<lparr>after_but := False\<rparr>) token) - score st)"
    using step_doubled [of token st "st\<lparr>after_but := False\<rparr>" NEGATIONS] by simp
  have 9: "after_but st \<longrightarrow>
        score (foldl (token_step NEGATIONS) st ts) - score st =
          2 * (score (foldl (token_step NEGATIONS) (st\<lparr>after_but := False\<rparr>)
                        (filter (\<lambda>t. t \<noteq> ''but'') ts)) - score st)"
    using scan_doubled [of st "st\<lparr>after_but := False\<rparr>" NEGATIONS ts] by simp
  have 10: "final_score NEGATIONS ''good but bad'' = Some (- 1)" by code_simp
  have 11: "analyze_sentiment ''good but bad'' = Some ''negative''" by code_simp
  have 12: "final_score NEGATIONS ''The food is delicious but the service was bad'' = Some (- 1)"
    by code_simp
  have 13: "final_score NEGATIONS ''bad but good but nice'' = Some 3" by code_simp
  from 1 2 3 4 5 6 7 8 9 10 11 12 13 show ?thesis by (intro conjI)
qed

theorem after_but_doubling_witness:
  "''bad'' \<noteq> ''but'' \<and> ''but'' \<notin> set [''good'']
   \<and> scan_tokens NEGATIONS 0 ([''good''] @ [''but'']) = \<lparr>score = 1, negate_window = 0, after_but = True\<rparr>
   \<and> score (scan_tokens NEGATIONS 0 ([''good''] @ ''but'' # [''not'', ''awful''] @ [''bad''])) = 5
   \<and> score (scan_tokens NEGATIONS 0 ([''good''] @ ''but'' # [''not'', ''awful'', ''but'', ''bad''])) = 5
   \<and> score (scan_tokens NEGATIONS 0 ([''good''] @ [''not'', ''awful'', ''bad''])) = 3
   \<and> after_but (scan_tokens NEGATIONS 0 ([''good''] @ ''but'' # [''not'', ''awful'', ''but'', ''bad'']))"
proof -
  have h1: "''bad'' \<noteq> ''but''" by simp
  have h2: "''but'' \<notin> set [''good'']" by simp
  have g: "scan_tokens NEGATIONS 0 [''good''] = \<lparr>score = 1, negate_window = 0, after_but = False\<rparr>"
    by code_simp
  have r: "scan_tokens NEGATIONS 0 ([''good''] @ ''but'' # [''not'', ''awful''])
       = \<lparr>score = 3, negate_window = 2, after_but = True\<rparr>"
    by code_simp
  have u: "score (token_step NEGATIONS
       (\<lparr>score = 3, negate_window = 2, after_but = True\<rparr>\<lparr>after_but := False\<rparr>) ''bad'') = 4"
    by code_simp
  have n: "score (scan_tokens NEGATIONS 0 ([''good''] @ [''not'', ''awful'', ''bad''])) = 3"
    by code_simp
  have f: "filter (\<lambda>t. t \<noteq> ''but'') [''not'', ''awful'', ''but'', ''bad''] = [''not'', ''awful'', ''bad'']"
    by simp
  let ?st = "\<lparr>score = 1, negate_window = 2, after_but = True\<rparr>"
  note t1 = after_but_doubling [of 0 "[''good'']" "[''not'', ''awful'']" "''bad''" ?st]
  note t2 = after_but_doubling [of 0 "[''good'']" "[''not'', ''awful'', ''but'', ''bad'']" "''bad''" ?st]
  have a: "scan_tokens NEGATIONS 0 ([''good''] @ [''but'']) =
      (scan_tokens NEGATIONS 0 [''good''])\<lparr>after_but := True\<rparr>"
    using t1 by blast
  have b: "score (scan_tokens NEGATIONS 0 ([''good''] @ ''but'' # [''not'', ''awful''] @ [''bad'']))
          - score (scan_tokens NEGATIONS 0 ([''good''] @ ''but'' # [''not'', ''awful''])) =
        2 * (score (token_step NEGATIONS
                     ((scan_tokens NEGATIONS 0 ([''good''] @ ''but'' # [''not'', ''awful'']))\<lparr>after_but := False\<rparr>) ''bad'')
             - score (scan_tokens NEGATIONS 0 ([''good''] @ ''but'' # [''not'', ''awful''])))"
    using t1 h1 by blast
  have c: "score (scan_tokens NEGATIONS 0 ([''good''] @ ''but'' # [''not'', ''awful'', ''but'', ''bad'']))
          - score (scan_tokens NEGATIONS 0 [''good'']) =
        2 * (score (scan_tokens NEGATIONS 0
                     ([''good''] @ filter (\<lambda>t. t \<noteq> ''but'') [''not'', ''awful'', ''but'', ''bad'']))
             - score (scan_tokens NEGATIONS 0 [''good'']))"
    using t2 h2 by blast
  have d: "after_but (scan_tokens NEGATIONS 0 ([''good''] @ ''but'' # [''not'', ''awful'', ''but'', ''bad'']))"
    using t2 by blast
  have a': "scan_tokens NEGATIONS 0 ([''good''] @ [''but'']) =
      \<lparr>score = 1, negate_window = 0, after_but = True\<rparr>"
    by (simp only: a g) simp
  have b': "score (scan_tokens NEGATIONS 0 ([''good''] @ ''but'' # [''not'', ''awful''] @ [''bad''])) = 5"
    using b by (simp only: r u) simp
  have c': "score (scan_tokens NEGATIONS 0 ([''good''] @ ''but'' # [''not'', ''awful'', ''but'', ''bad''])) = 5"
    using c by (simp only: f n g) simp
  from h1 h2 a' b' c' n d show ?thesis by blast
qed

text \<open>
  Claim C4.  Under an active negation window and after ``but'', a positive word adds
  exactly \<open>-2\<close> to the score and a negative word adds exactly \<open>+2\<close>: the sign is
  inverted and the result doubled.
\<close>

theorem flip_then_double:
  "0 < negate_window st \<and> after_but st \<longrightarrow>
     (token \<in> set POSITIVE_WORDS \<longrightarrow> score (token_step NEGATIONS st token) = score st - 2)
     \<and> (token \<in> set NEGATIVE_WORDS \<longrightarrow> score (token_step NEGATIONS st token) = score st + 2)"
proof (intro impI conjI)
  assume a: "0 < negate_window st \<and> after_but st" and "token \<in> set POSITIVE_WORDS"
  then have "token \<noteq> ''but'' \<and> token \<notin> set NEGATIONS \<and> token \<in> set POSITIVE_WORDS"
    using positive_word_plain by blast
  then show "score (token_step NEGATIONS st token) = score st - 2"
    using a by (simp add: token_step_def)
next
  assume a: "0 < negate_window st \<and> after_but st" and "token \<in> set NEGATIVE_WORDS"
  then have "token \<noteq> ''but'' \<and> token \<notin> set NEGATIONS \<and> token \<notin> set POSITIVE_WORDS
      \<and> token \<in> set NEGATIVE_WORDS"
    using negative_word_plain by blast
  then show "score (token_step NEGATIONS st token) = score st + 2"
    using a by (simp add: token_step_def)
qed

theorem flip_then_double_witness:
  "0 < negate_window \<lparr>score = 0, negate_window = 3, after_but = True\<rparr>
   \<and> after_but \<lparr>score = 0, negate_window = 3, after_but = True\<rparr>
   \<and> ''good'' \<in> set POSITIVE_WORDS \<and> ''bad'' \<in> set NEGATIVE_WORDS
   \<and> score (token_step NEGATIONS \<lparr>score = 0, negate_window = 3, after_but = True\<rparr> ''good'') = - 2
   \<and> score (token_step NEGATIONS \<lparr>score = 0, negate_window = 3, after_but = True\<rparr> ''bad'') = 2"
  using flip_then_double [of "\<lparr>score = 0, negate_window = 3, after_but = True\<rparr>" "''good''"]
        flip_then_double [of "\<lparr>score = 0, negate_window = 3, after_but = True\<rparr>" "''bad''"]
  by (simp add: POSITIVE_WORDS_def NEGATIVE_WORDS_def)

section \<open>Occurrences of a phrase and the masked text\<close>

lemma find_from_None:
  assumes "find_from s sub start = None" "start \<le> j" "j + length sub \<le> length s"
  shows "take (length sub) (drop j s) \<noteq> sub"
proof -
  from assms(2,3) have "j \<in> set [start ..< Suc (length s) - length sub]" by auto
  with assms(1) show ?thesis unfolding find_from_def find_None_iff by blast
qed

lemma find_from_ex:
  assumes "occurs_at s sub j" "start \<le> j"
  shows "\<exists>i. find_from s sub start = Some i \<and> i \<le> j"
proof (cases "find_from s sub start")
  case None
  with assms find_from_None [of s sub start j] show ?thesis by (simp add: occurs_at_def)
next
  case (Some i)
  have "\<not> i > j"
  proof
    assume "i > j"
    with find_from_Some(4) [OF Some assms(2)] assms(1) show False by (simp add: occurs_at_def)
  qed
  with Some show ?thesis by simp
qed

lemma find_from_suffix:
  assumes "length t = length s" "drop start t = drop start s"
  shows "find_from t sub start = find_from s sub start"
proof -
  have "\<And>j. start \<le> j \<Longrightarrow> drop j t = drop j s"
  proof -
    fix j :: nat assume "start \<le> j"
    then have "drop j t = drop (j - start) (drop start t)" "drop j s = drop (j - start) (drop start s)"
      by simp_all
    with assms(2) show "drop j t = drop j s" by simp
  qed
  then show ?thesis
    unfolding find_from_def assms(1) by (intro find_cong) auto
qed

lemma length_mask_at: "idx + n \<le> length s \<Longrightarrow> length (mask_at s idx n) = length s"
  by (simp add: mask_at_def)

lemma drop_mask_at: "idx + n \<le> length s \<Longrightarrow> idx + n \<le> k \<Longrightarrow> drop k (mask_at s idx n) = drop k s"
  by (simp add: mask_at_def)

lemma nth_mask_at:
  "idx + n \<le> length s \<Longrightarrow> k < length s \<Longrightarrow>
     mask_at s idx n ! k = (if idx \<le> k \<and> k < idx + n then blank else s ! k)"
  by (auto simp: mask_at_def nth_append)

lemma scan_occurrences_suffix:
  "length t = length s \<Longrightarrow> drop start t = drop start s \<Longrightarrow>
     scan_occurrences t sub start = scan_occurrences s sub start"
proof (induction s sub start arbitrary: t rule: scan_occurrences.induct)
  case (1 s sub start)
  have ff: "find_from t sub start = find_from s sub start"
    using "1.prems" by (rule find_from_suffix)
  show ?case
  proof (cases "sub = []")
    case True
    then show ?thesis by (simp add: scan_occurrences.simps)
  next
    case False
    show ?thesis
    proof (cases "find_from s sub start")
      case None
      with ff False show ?thesis by (simp add: scan_occurrences.simps)
    next
      case (Some i)
      have "start \<le> i + length sub" using find_from_Some(1) [OF Some] by simp
      then have "drop (i + length sub) t = drop (i + length sub - start) (drop start t)"
        "drop (i + length sub) s = drop (i + length sub - start) (drop start s)" by simp_all
      with "1.prems"(2) have "drop (i + length sub) t = drop (i + length sub) s" by simp
      from "1.IH" [OF False Some "1.prems"(1) this] ff Some False
      show ?thesis by (simp add: scan_occurrences.simps [of t] scan_occurrences.simps [of s])
    qed
  qed
qed

lemma scan_occurrences_in_range:
  "i \<in> set (scan_occurrences s sub start) \<Longrightarrow> start \<le> i \<and> occurs_at s sub i"
proof (induction s sub start rule: scan_occurrences.induct)
  case (1 s sub start)
  show ?case
  proof (cases "sub = []")
    case True
    with "1.prems" show ?thesis by (simp add: scan_occurrences.simps)
  next
    case False
    show ?thesis
    proof (cases "find_from s sub start")
      case None
      with "1.prems" False show ?thesis by (simp add: scan_occurrences.simps)
    next
      case (Some k)
      from "1.prems" False Some have "i = k \<or> i \<in> set (scan_occurrences s sub (k + length sub))"
        by (simp add: scan_occurrences.simps [of s sub start])
      then show ?thesis
      proof
        assume "i = k"
        with find_from_Some(1,2,3) [OF Some] show ?thesis by (simp add: occurs_at_def)
      next
        assume "i \<in> set (scan_occurrences s sub (k + length sub))"
        from "1.IH" [OF False Some this] find_from_Some(1) [OF Some] show ?thesis by simp
      qed
    qed
  qed
qed

lemma mask_phrase_result:
  assumes "phrase \<noteq> []"
  shows "mask_phrase phrase w s sc start =
     Some (mask_all s (length phrase) (scan_occurrences s phrase start),
           sc + w * int (length (scan_occurrences s phrase start)))"
proof (induction "Suc (length s) - start" arbitrary: s sc start rule: less_induct)
  case less
  show ?case
  proof (cases "find_from s phrase start")
    case None
    then show ?thesis using assms
      by (subst mask_phrase.simps) (simp add: scan_occurrences.simps [of s] mask_all_def)
  next
    case (Some i)
    let ?n = "length phrase"
    let ?s' = "mask_at s i ?n"
    note fs = find_from_Some(1,2) [OF Some]
    have len: "length ?s' = length s" using fs by (simp add: length_mask_at)
    obtain m where "?n = Suc m" using assms by (cases phrase) auto
    then have dec: "Suc (length ?s') - (i + ?n) < Suc (length s) - start" using fs len by simp
    have suf: "scan_occurrences ?s' phrase (i + ?n) = scan_occurrences s phrase (i + ?n)"
      using fs by (intro scan_occurrences_suffix len) (simp add: drop_mask_at)
    have "mask_phrase phrase w s sc start = mask_phrase phrase w ?s' (sc + w) (i + ?n)"
      using Some by (subst mask_phrase.simps) (simp add: mask_at_def)
    also have "\<dots> = Some (mask_all ?s' ?n (scan_occurrences ?s' phrase (i + ?n)),
           (sc + w) + w * int (length (scan_occurrences ?s' phrase (i + ?n))))"
      using less [OF dec] .
    also have "\<dots> = Some (mask_all s ?n (scan_occurrences s phrase start),
           sc + w * int (length (scan_occurrences s phrase start)))"
      using Some assms by (simp add: suf scan_occurrences.simps [of s phrase start] mask_all_def algebra_simps)
    finally show ?thesis .
  qed
qed

lemma length_mask_all:
  "\<forall>i \<in> set occs. i + n \<le> length s \<Longrightarrow> length (mask_all s n occs) = length s"
  unfolding mask_all_def
  by (induction occs arbitrary: s) (simp_all add: length_mask_at)

lemma nth_mask_all:
  "\<forall>i \<in> set occs. i + n \<le> length s \<Longrightarrow> k < length s \<Longrightarrow>
     mask_all s n occs ! k = (if \<exists>i \<in> set occs. i \<le> k \<and> k < i + n then blank else s ! k)"
  unfolding mask_all_def
proof (induction occs arbitrary: s)
  case Nil
  then show ?case by simp
next
  case (Cons a occs)
  have la: "length (mask_at s a n) = length s" using Cons.prems(1) by (simp add: length_mask_at)
  have "foldl (\<lambda>t i. mask_at t i n) (mask_at s a n) occs ! k =
      (if \<exists>i \<in> set occs. i \<le> k \<and> k < i + n then blank else mask_at s a n ! k)"
    using Cons.prems la by (intro Cons.IH) simp_all
  also have "mask_at s a n ! k = (if a \<le> k \<and> k < a + n then blank else s ! k)"
    using Cons.prems by (simp add: nth_mask_at)
  finally show ?case by auto
qed

lemma scan_occurrences_apart:
  "sorted_wrt (\<lambda>i j. i + length sub \<le> j) (scan_occurrences s sub start)"
proof (induction s sub start rule: scan_occurrences.induct)
  case (1 s sub start)
  show ?case
  proof (cases "sub = []")
    case True
    then show ?thesis by (simp add: scan_occurrences.simps)
  next
    case False
    show ?thesis
    proof (cases "find_from s sub start")
      case None
      with False show ?thesis by (simp add: scan_occurrences.simps)
    next
      case (Some i)
      have "\<forall>j \<in> set (scan_occurrences s sub (i + length sub)). i + length sub \<le> j"
        using scan_occurrences_in_range by blast
      with "1.IH" [OF False Some] False Some show ?thesis
        by (simp add: scan_occurrences.simps [of s sub start])
    qed
  qed
qed

lemma apply_phrases_result:
  "apply_phrases PHRASE_SENTIMENT s sc =
     Some (mask_all s (length ''good taste'') (scan_occurrences s ''good taste'' 0),
           sc + (- 2) * int (length (scan_occurrences s ''good taste'' 0)))"
proof -
  have "mask_phrase ''good taste'' (- 2) s sc 0 =
     Some (mask_all s (length ''good taste'') (scan_occurrences s ''good taste'' 0),
           sc + (- 2) * int (length (scan_occurrences s ''good taste'' 0)))"
    by (rule mask_phrase_result) simp
  then show ?thesis by (simp add: PHRASE_SENTIMENT_def)
qed

lemma final_score_eq:
  "final_score negations text =
     Some (score (scan_tokens negations (- 2 * int (length (phrase_occurrences text)))
                    (tokenize (masked_text text))))"
  by (simp add: final_score_def apply_phrases_result phrase_occurrences_def masked_text_def)

section \<open>Runs of token characters\<close>

lemma apostrophe_not_word: "\<not> word_char apostrophe"
  by (simp add: word_char_def apostrophe_def)

lemma word_is_token: "word_char c \<Longrightarrow> token_char c"
  by (simp add: token_char_def)

lemma token_nonword: "token_char c \<Longrightarrow> \<not> word_char c \<Longrightarrow> c = apostrophe"
  by (simp add: token_char_def)

lemma rtrim_Nil_iff: "rtrim s = [] \<longleftrightarrow> (\<forall>c \<in> set s. \<not> word_char c)"
  by (induction s) auto

lemma rtrim_rev: "rtrim s = rev (dropWhile (\<lambda>c. \<not> word_char c) (rev s))"
proof (induction s)
  case Nil
  then show ?case by simp
next
  case (Cons c cs)
  show ?case
  proof (cases "\<forall>x \<in> set cs. \<not> word_char x")
    case True
    then have "dropWhile (\<lambda>c. \<not> word_char c) (rev cs @ [c]) = dropWhile (\<lambda>c. \<not> word_char c) [c]"
      by (intro dropWhile_append2) simp
    with True show ?thesis by (simp add: rtrim_Nil_iff)
  next
    case False
    then obtain x where "x \<in> set (rev cs)" "\<not> \<not> word_char x" by auto
    then have "dropWhile (\<lambda>c. \<not> word_char c) (rev cs @ [c]) = dropWhile (\<lambda>c. \<not> word_char c) (rev cs) @ [c]"
      by (rule dropWhile_append1)
    with False Cons.IH show ?thesis by (simp add: rtrim_Nil_iff)
  qed
qed

lemma rtrim_split:
  "\<exists>as. s = rtrim s @ as \<and> (\<forall>a \<in> set as. \<not> word_char a)"
proof (induction s)
  case Nil
  then show ?case by simp
next
  case (Cons c cs)
  then obtain as where as: "cs = rtrim cs @ as" "\<forall>a \<in> set as. \<not> word_char a" by blast
  show ?case
  proof (cases "rtrim cs = [] \<and> \<not> word_char c")
    case True
    then have "\<forall>a \<in> set (c # cs). \<not> word_char a" by (simp add: rtrim_Nil_iff)
    with True show ?thesis by simp
  next
    case False
    then have "c # cs = rtrim (c # cs) @ as" using as(1) by auto
    with as(2) show ?thesis by blast
  qed
qed

lemma rtrim_last: "rtrim s \<noteq> [] \<Longrightarrow> word_char (last (rtrim s))"
  by (induction s) (auto split: if_splits)

lemma greedy_rtrim:
  "greedy c ds = (if rtrim (c # takeWhile token_char ds) = [] then None
                  else Some (length (rtrim (c # takeWhile token_char ds)) - 1))"
proof (induction ds arbitrary: c)
  case Nil
  then show ?case by (simp add: word_boundary_def)
next
  case (Cons d ds)
  show ?case
  proof (cases "token_char d")
    case False
    then have "\<not> word_char d" using word_is_token by blast
    with False show ?thesis by (simp add: word_boundary_def)
  next
    case True
    show ?thesis
    proof (cases "rtrim (d # takeWhile token_char ds) = []")
      case True
      then have "\<not> word_char d" by (simp add: rtrim_Nil_iff split: if_splits)
      with True \<open>token_char d\<close> Cons.IH [of d] show ?thesis
        by (simp add: word_boundary_def)
    next
      case False
      with \<open>token_char d\<close> Cons.IH [of d] show ?thesis
        by (auto split: if_splits)
    qed
  qed
qed

lemma match_here_rtrim:
  "match_here prev (c # cs) =
     (if word_boundary prev (Some c) \<and> token_char c \<and> rtrim (c # takeWhile token_char cs) \<noteq> []
      then Some (length (rtrim (c # takeWhile token_char cs))) else None)"
proof -
  have "rtrim (c # takeWhile token_char cs) \<noteq> [] \<Longrightarrow>
      Suc (length (rtrim (c # takeWhile token_char cs)) - 1) = length (rtrim (c # takeWhile token_char cs))"
    by simp
  then show ?thesis by (simp only: match_here.simps greedy_rtrim) auto
qed

lemma runs_unfold:
  "runs P cs = (if takeWhile P cs = [] then runs P (dropWhile P cs)
                else takeWhile P cs # runs P (dropWhile P cs))"
  by (cases cs) auto

lemma takeWhile_dropWhile_Nil: "takeWhile P (dropWhile P xs) = []"
  by (induction xs) auto

lemma strip_apostrophes_Cons:
  "strip_apostrophes (apostrophe # r) = strip_apostrophes r"
  by (simp add: strip_apostrophes_def)

lemma strip_apostrophes_Nil: "strip_apostrophes [] = []"
  by (simp add: strip_apostrophes_def)

lemma trimmed_runs_apostrophe:
  assumes "token_char c" "\<not> word_char c"
  shows "trimmed_runs (c # cs) = trimmed_runs cs"
proof -
  have c: "c = apostrophe" using assms by (rule token_nonword)
  have "trimmed_runs (c # cs) =
      filter (\<lambda>t. t \<noteq> []) (strip_apostrophes (takeWhile token_char cs)
         # map strip_apostrophes (runs token_char (dropWhile token_char cs)))"
    using assms(1) by (simp add: trimmed_runs_def c strip_apostrophes_Cons)
  also have "\<dots> = trimmed_runs cs"
    unfolding trimmed_runs_def by (subst (2) runs_unfold) (simp add: strip_apostrophes_Nil)
  finally show ?thesis .
qed

lemma trimmed_runs_apostrophes:
  "\<forall>a \<in> set as. token_char a \<and> \<not> word_char a \<Longrightarrow> trimmed_runs (as @ rest) = trimmed_runs rest"
  by (induction as) (simp_all add: trimmed_runs_apostrophe)

lemma strip_apostrophes_rtrim:
  assumes "word_char c" "\<forall>x \<in> set r. token_char x"
  shows "strip_apostrophes (c # r) = rtrim (c # r)"
proof -
  have ne: "c \<noteq> apostrophe" using assms(1) apostrophe_not_word by auto
  have "\<And>x. x \<in> set (rev (c # r)) \<Longrightarrow> (x = apostrophe) = (\<not> word_char x)"
    using assms apostrophe_not_word token_nonword word_is_token by auto
  then have "dropWhile (\<lambda>x. x = apostrophe) (rev (c # r)) = dropWhile (\<lambda>x. \<not> word_char x) (rev (c # r))"
    by (intro dropWhile_cong) auto
  then show ?thesis
    using ne by (simp only: strip_apostrophes_def rtrim_rev dropWhile.simps if_False)
qed

lemma trimmed_runs_word:
  assumes "word_char c"
  shows "trimmed_runs (c # cs) =
           rtrim (c # takeWhile token_char cs) # trimmed_runs (dropWhile token_char cs)"
proof -
  have tok: "\<forall>x \<in> set (takeWhile token_char cs). token_char x"
    by (auto dest: set_takeWhileD)
  have "strip_apostrophes (c # takeWhile token_char cs) = rtrim (c # takeWhile token_char cs)"
    using assms tok by (rule strip_apostrophes_rtrim)
  moreover have "rtrim (c # takeWhile token_char cs) \<noteq> []" using assms by simp
  ultimately show ?thesis
    using word_is_token [OF assms] by (simp add: trimmed_runs_def del: rtrim.simps)
qed

lemma findall_trimmed_runs:
  "\<not> is_word prev \<Longrightarrow> findall prev s = trimmed_runs s"
proof (induction "length s" arbitrary: s prev rule: less_induct)
  case less
  show ?case
  proof (cases s)
    case Nil
    then show ?thesis by (simp add: trimmed_runs_def)
  next
    case (Cons c cs)
    consider (sep) "\<not> token_char c" | (apo) "token_char c" "\<not> word_char c" | (word) "word_char c"
      by blast
    then show ?thesis
    proof cases
      case sep
      then have nw: "\<not> is_word (Some c)" using word_is_token by auto
      have "findall prev (c # cs) = findall (Some c) cs" using sep by simp
      also have "\<dots> = trimmed_runs cs" using less(1) [of cs "Some c"] nw Cons by simp
      also have "\<dots> = trimmed_runs (c # cs)" using sep by (simp add: trimmed_runs_def)
      finally show ?thesis using Cons by simp
    next
      case apo
      have "match_here prev (c # cs) = None"
        using apo(2) less.prems by (simp add: word_boundary_def)
      then have "findall prev (c # cs) = findall (Some c) cs" by simp
      also have "\<dots> = trimmed_runs cs" using less(1) [of cs "Some c"] apo(2) Cons by simp
      also have "\<dots> = trimmed_runs (c # cs)" using apo by (simp add: trimmed_runs_apostrophe)
      finally show ?thesis using Cons by simp
    next
      case word
      let ?r = "takeWhile token_char cs" and ?rest = "dropWhile token_char cs"
      let ?t = "rtrim (c # ?r)"
      obtain as where as: "c # ?r = ?t @ as" "\<forall>a \<in> set as. \<not> word_char a"
        using rtrim_split by blast
      have tne: "?t \<noteq> []" using word by simp
      have "\<forall>a \<in> set (c # ?r). token_char a"
        using word_is_token [OF word] by (auto dest: set_takeWhileD)
      moreover have "set as \<subseteq> set (c # ?r)" by (subst as(1)) (simp del: rtrim.simps)
      ultimately have astok: "\<forall>a \<in> set as. token_char a" by blast
      have m: "match_here prev (c # cs) = Some (length ?t)"
        using word less.prems tne
        by (simp only: match_here_rtrim) (simp add: word_boundary_def word_is_token)
      have "(?t @ as) @ ?rest = (c # ?r) @ ?rest" by (simp only: as(1) [symmetric])
      then have s_eq: "c # cs = ?t @ as @ ?rest" by (simp del: rtrim.simps)
      have tk: "take (length ?t) (c # cs) = ?t" by (subst s_eq) simp
      have dr: "drop (length ?t) (c # cs) = as @ ?rest" by (subst s_eq) simp
      have "(c # cs) ! (length ?t - 1) = ?t ! (length ?t - 1)"
        using tne by (subst s_eq) (simp add: nth_append del: rtrim.simps)
      then have lst: "(c # cs) ! (length ?t - 1) = last ?t"
        using tne by (simp add: last_conv_nth del: rtrim.simps)
      have step: "findall prev (c # cs) = ?t # findall (Some (last ?t)) (as @ ?rest)"
        by (simp only: findall.simps m option.case tk dr lst)
      have len: "length (as @ ?rest) < length s"
        using tne arg_cong [OF s_eq, of length] Cons by (simp del: rtrim.simps)
      have tail: "findall (Some (last ?t)) (as @ ?rest) = trimmed_runs ?rest"
      proof (cases as)
        case Nil
        show ?thesis
        proof (cases ?rest)
          case Nil
          show ?thesis unfolding \<open>as = []\<close> Nil by (simp add: trimmed_runs_def)
        next
          case (Cons d ds)
          have "\<not> token_char (hd ?rest)" by (rule hd_dropWhile) (simp add: Cons)
          then have d: "\<not> token_char d" by (simp add: Cons)
          then have nw: "\<not> is_word (Some d)" using word_is_token by auto
          have "length ds < length s" using len \<open>as = []\<close> Cons by simp
          then have "findall (Some d) ds = trimmed_runs ds" using less(1) nw by blast
          moreover have "findall (Some (last ?t)) (d # ds) = findall (Some d) ds"
            using d by simp
          moreover have "trimmed_runs (d # ds) = trimmed_runs ds"
            using d by (simp add: trimmed_runs_def)
          ultimately have "findall (Some (last ?t)) (d # ds) = trimmed_runs (d # ds)"
            by (simp only:)
          then show ?thesis unfolding \<open>as = []\<close> Cons by (simp only: append_Nil)
        qed
      next
        case (Cons a as')
        have "takeWhile token_char (as' @ ?rest) = as' @ takeWhile token_char ?rest"
          using astok Cons by (intro takeWhile_append2) simp
        then have "takeWhile token_char (as' @ ?rest) = as'"
          by (simp add: takeWhile_dropWhile_Nil)
        then have "rtrim (a # takeWhile token_char (as' @ ?rest)) = []"
          using as(2) Cons by (simp add: rtrim_Nil_iff)
        then have "match_here (Some (last ?t)) (a # as' @ ?rest) = None"
          by (simp only: match_here_rtrim) simp
        then have "findall (Some (last ?t)) (as @ ?rest) = findall (Some a) (as' @ ?rest)"
          using Cons by simp
        also have "\<dots> = trimmed_runs (as' @ ?rest)"
          using less(1) [of "as' @ ?rest" "Some a"] len as(2) Cons by simp
        also have "\<dots> = trimmed_runs ?rest"
          using as(2) astok Cons by (intro trimmed_runs_apostrophes) simp
        finally show ?thesis .
      qed
      have "findall prev (c # cs) = ?t # trimmed_runs ?rest"
        by (simp only: step tail)
      also have "\<dots> = trimmed_runs (c # cs)"
        by (simp only: trimmed_runs_word [OF word])
      finally show ?thesis by (simp only: Cons)
    qed
  qed
qed

lemma tokenize_trimmed_runs: "tokenize text = trimmed_runs (lower text)"
  by (simp add: tokenize_def findall_trimmed_runs)

lemma runs_elems: "r \<in> set (runs P s) \<Longrightarrow> r \<noteq> [] \<and> (\<forall>x \<in> set r. P x)"
proof (induction P s rule: runs.induct)
  case (1 P)
  then show ?case by simp
next
  case (2 P c cs)
  show ?case
  proof (cases "P c")
    case True
    with 2 have "r = c # takeWhile P cs \<or> r \<in> set (runs P (dropWhile P cs))" by simp
    then show ?thesis
    proof
      assume "r = c # takeWhile P cs"
      with True show ?thesis by (auto dest: set_takeWhileD)
    next
      assume "r \<in> set (runs P (dropWhile P cs))"
      with 2(1) [OF True] show ?thesis .
    qed
  next
    case False
    with 2 show ?thesis by simp
  qed
qed

lemma runs_none: "\<forall>c \<in> set s. \<not> P c \<Longrightarrow> runs P s = []"
  by (induction s) simp_all

lemma last_dropWhile: "dropWhile P xs \<noteq> [] \<Longrightarrow> last (dropWhile P xs) = last xs"
  by (induction xs) (auto split: if_splits)

lemma strip_apostrophes_ends:
  assumes "strip_apostrophes r \<noteq> []"
  shows "hd (strip_apostrophes r) \<noteq> apostrophe" and "last (strip_apostrophes r) \<noteq> apostrophe"
    and "set (strip_apostrophes r) \<subseteq> set r"
proof -
  let ?A = "\<lambda>c. c = apostrophe"
  let ?u = "dropWhile ?A r"
  let ?v = "dropWhile ?A (rev ?u)"
  have v: "?v \<noteq> []" using assms by (simp add: strip_apostrophes_def)
  have u: "?u \<noteq> []"
  proof
    assume e: "?u = []"
    have "?v = []" unfolding e by simp
    with v show False by simp
  qed
  have "last (strip_apostrophes r) = hd ?v" using v by (simp add: strip_apostrophes_def last_rev)
  moreover have "\<not> ?A (hd ?v)" using v by (rule hd_dropWhile)
  ultimately show "last (strip_apostrophes r) \<noteq> apostrophe" by simp
  have "hd (strip_apostrophes r) = last ?v" using v by (simp add: strip_apostrophes_def hd_rev)
  also have "\<dots> = last (rev ?u)" using v by (rule last_dropWhile)
  also have "\<dots> = hd ?u" using u by (simp add: last_rev)
  finally have "hd (strip_apostrophes r) = hd ?u" .
  moreover have "\<not> ?A (hd ?u)" using u by (rule hd_dropWhile)
  ultimately show "hd (strip_apostrophes r) \<noteq> apostrophe" by simp
  have "set ?v \<subseteq> set (rev ?u)" using set_dropWhileD by fast
  moreover have "set ?u \<subseteq> set r" using set_dropWhileD by fast
  moreover have "set (strip_apostrophes r) = set ?v" by (simp only: strip_apostrophes_def set_rev)
  ultimately show "set (strip_apostrophes r) \<subseteq> set r" by (simp only: set_rev)
qed

lemma trimmed_runs_elems:
  assumes "t \<in> set (trimmed_runs s)"
  shows "t \<noteq> []" and "word_char (hd t)" and "word_char (last t)" and "\<forall>c \<in> set t. token_char c"
proof -
  from assms obtain r where r: "r \<in> set (runs token_char s)" "t = strip_apostrophes r" "t \<noteq> []"
    by (auto simp: trimmed_runs_def)
  show "t \<noteq> []" by (rule r(3))
  have sub: "set t \<subseteq> set r" using strip_apostrophes_ends(3) r(2,3) by blast
  with runs_elems [OF r(1)] show tok: "\<forall>c \<in> set t. token_char c" by blast
  have "hd t \<in> set t" "last t \<in> set t" using r(3) by simp_all
  with tok have "token_char (hd t)" "token_char (last t)" by blast+
  moreover have "hd t \<noteq> apostrophe" "last t \<noteq> apostrophe"
    using strip_apostrophes_ends(1,2) r(2,3) by blast+
  ultimately show "word_char (hd t)" "word_char (last t)" by (simp_all add: token_char_def)
qed

lemma of_char_lower_char:
  "(of_char (lower_char c) :: nat) = (if is_upper (of_char c) then of_char c + 32 else of_char c)"
proof (cases "is_upper (of_char c)")
  case True
  then have "(of_char c :: nat) + 32 < 256" by (auto simp: is_upper_def)
  then have "((of_char c :: nat) + 32) mod 256 = of_char c + 32" by simp
  with True show ?thesis by (simp add: lower_char_def is_upper_def Let_def)
next
  case False
  then show ?thesis by (auto simp: lower_char_def is_upper_def Let_def)
qed

lemma lower_char_idem: "lower_char (lower_char c) = lower_char c"
proof -
  have "\<not> is_upper (of_char (lower_char c))"
    by (simp only: of_char_lower_char) (auto simp: is_upper_def)
  then show ?thesis
    by (subst lower_char_def) (auto simp: is_upper_def Let_def)
qed

lemma space_char_plain: "space_char c \<Longrightarrow> lower_char c = c \<and> \<not> token_char c"
proof -
  assume a: "space_char c"
  then have n: "(of_char c :: nat) \<le> 32 \<or> (of_char c :: nat) = 133 \<or> (of_char c :: nat) = 160"
    by (auto simp: space_char_def Let_def)
  then have 1: "lower_char c = c" by (auto simp: lower_char_def Let_def)
  have 2: "\<not> word_char c" using n by (auto simp: word_char_def Let_def)
  have "(of_char apostrophe :: nat) = 39" by (simp add: apostrophe_def)
  with n have 3: "c \<noteq> apostrophe" by auto
  from 1 2 3 show ?thesis by (simp add: token_char_def)
qed

lemma lower_idem: "lower (lower s) = lower s"
  by (simp add: lower_def lower_char_idem)

lemma lower_blank: "\<forall>c \<in> set s. space_char c \<Longrightarrow> lower s = s"
  by (simp add: lower_def space_char_plain map_idI)

lemma tokenize_blank: "\<forall>c \<in> set s. space_char c \<Longrightarrow> tokenize s = []"
  by (simp add: tokenize_trimmed_runs lower_blank trimmed_runs_def runs_none space_char_plain)

lemma strip_Nil: "strip s = [] \<Longrightarrow> \<forall>c \<in> set s. space_char c"
proof -
  assume "strip s = []"
  then have "\<forall>c \<in> set (dropWhile space_char s). space_char c"
    by (simp add: strip_def)
  moreover have "dropWhile space_char s \<noteq> [] \<Longrightarrow> \<not> space_char (hd (dropWhile space_char s))"
    by (rule hd_dropWhile)
  ultimately have "dropWhile space_char s = []"
    by (cases "dropWhile space_char s") auto
  then show ?thesis by simp
qed

lemma strip_blank: "\<forall>c \<in> set s. space_char c \<Longrightarrow> strip s = []"
proof -
  assume "\<forall>c \<in> set s. space_char c"
  then have "dropWhile space_char s = []" by simp
  then show ?thesis by (simp only: strip_def rev.simps dropWhile.simps)
qed

section \<open>The phrase overrides\<close>

lemma step_score_shift:
  "token_step negations (st\<lparr>score := score st + d\<rparr>) token =
     (token_step negations st token)\<lparr>score := score (token_step negations st token) + d\<rparr>"
  by (simp add: token_step_def Let_def)

lemma scan_score_shift:
  "foldl (token_step negations) (st\<lparr>score := score st + d\<rparr>) ts =
     (foldl (token_step negations) st ts)\<lparr>score := score (foldl (token_step negations) st ts) + d\<rparr>"
proof (induction ts arbitrary: st)
  case Nil
  then show ?case by simp
next
  case (Cons t ts)
  show ?case
    by (simp only: foldl_Cons step_score_shift Cons.IH)
qed

lemma scan_tokens_offset:
  "score (scan_tokens negations s0 ts) = s0 + score (scan_tokens negations 0 ts)"
proof -
  let ?z = "\<lparr>score = 0, negate_window = 0, after_but = False\<rparr>"
  have "\<lparr>score = s0, negate_window = 0, after_but = False\<rparr> = ?z\<lparr>score := score ?z + s0\<rparr>"
    by simp
  then have "scan_tokens negations s0 ts =
      (foldl (token_step negations) ?z ts)\<lparr>score := score (foldl (token_step negations) ?z ts) + s0\<rparr>"
    unfolding scan_tokens_def by (simp only: scan_score_shift)
  then show ?thesis by (simp add: scan_tokens_def)
qed

lemma final_score_sum:
  "final_score negations text =
     Some (- 2 * int (length (phrase_occurrences text))
           + score (scan_tokens negations 0 (tokenize (masked_text text))))"
  by (simp only: final_score_eq scan_tokens_offset [of negations "- 2 * int (length (phrase_occurrences text))"])

lemma apply_phrases_masked:
  "apply_phrases PHRASE_SENTIMENT (lower text) 0 =
     Some (masked_text text, - 2 * int (length (phrase_occurrences text)))"
  by (simp add: apply_phrases_result masked_text_def phrase_occurrences_def)

lemma phrase_occurrences_genuine:
  "i \<in> set (phrase_occurrences text) \<Longrightarrow> occurs_at (lower text) ''good taste'' i"
  unfolding phrase_occurrences_def using scan_occurrences_in_range by blast

lemma length_masked_text: "length (masked_text text) = length (lower text)"
  unfolding masked_text_def
proof (rule length_mask_all)
  show "\<forall>i \<in> set (phrase_occurrences text). i + length ''good taste'' \<le> length (lower text)"
    using phrase_occurrences_genuine by (auto simp: occurs_at_def)
qed

lemma nth_masked_text:
  assumes "k < length (lower text)"
  shows "masked_text text ! k =
     (if \<exists>i \<in> set (phrase_occurrences text). i \<le> k \<and> k < i + length ''good taste''
      then blank else lower text ! k)"
  unfolding masked_text_def
proof (rule nth_mask_all)
  show "\<forall>i \<in> set (phrase_occurrences text). i + length ''good taste'' \<le> length (lower text)"
    using phrase_occurrences_genuine by (auto simp: occurs_at_def)
  show "k < length (lower text)" by (rule assms)
qed

text \<open>
  Claim C1.  The loop over the phrase table returns the text with every occurrence found
  by the repeated left-to-right scan overwritten by blanks of the same length, and the
  score \<open>-2\<close> times the number of these occurrences: each occurrence found adds the
  weight once.  The occurrences found are occurrences of the phrase in the lowercased
  text and lie apart by at least the length of the phrase.  The final score is that sum
  plus the score of the tokens of the masked text, which is blank on every matched
  span and equal to the lowercased text elsewhere, so no word inside a matched span is
  scored.  The text ``the good taste of it'' scores \<open>-2\<close> and ``good taste good
  taste'' scores \<open>-4\<close>.
\<close>

theorem phrase_override_scored_once:
  "apply_phrases PHRASE_SENTIMENT (lower text) 0 =
     Some (masked_text text, - 2 * int (length (phrase_occurrences text)))
   \<and> final_score NEGATIONS text =
       Some (- 2 * int (length (phrase_occurrences text))
             + score (scan_tokens NEGATIONS 0 (tokenize (masked_text text))))
   \<and> (\<forall>i \<in> set (phrase_occurrences text). occurs_at (lower text) ''good taste'' i)
   \<and> sorted_wrt (\<lambda>i j. i + length ''good taste'' \<le> j) (phrase_occurrences text)
   \<and> length (masked_text text) = length (lower text)
   \<and> (\<forall>k < length (lower text). masked_text text ! k =
         (if \<exists>i \<in> set (phrase_occurrences text). i \<le> k \<and> k < i + length ''good taste''
          then blank else lower text ! k))
   \<and> final_score NEGATIONS ''the good taste of it'' = Some (- 2)
   \<and> final_score NEGATIONS ''good taste good taste'' = Some (- 4)"
proof (intro conjI)
  show "apply_phrases PHRASE_SENTIMENT (lower text) 0 =
     Some (masked_text text, - 2 * int (length (phrase_occurrences text)))"
    by (rule apply_phrases_masked)
  show "final_score NEGATIONS text =
       Some (- 2 * int (length (phrase_occurrences text))
             + score (scan_tokens NEGATIONS 0 (tokenize (masked_text text))))"
    by (rule final_score_sum)
  show "\<forall>i \<in> set (phrase_occurrences text). occurs_at (lower text) ''good taste'' i"
    using phrase_occurrences_genuine by blast
  show "sorted_wrt (\<lambda>i j. i + length ''good taste'' \<le> j) (phrase_occurrences text)"
    unfolding phrase_occurrences_def by (rule scan_occurrences_apart)
  show "length (masked_text text) = length (lower text)" by (rule length_masked_text)
  show "\<forall>k < length (lower text). masked_text text ! k =
         (if \<exists>i \<in> set (phrase_occurrences text). i \<le> k \<and> k < i + length ''good taste''
          then blank else lower text ! k)"
    using nth_masked_text by blast
  show "final_score NEGATIONS ''the good taste of it'' = Some (- 2)" by code_simp
  show "final_score NEGATIONS ''good taste good taste'' = Some (- 4)" by code_simp
qed

theorem phrase_override_scored_once_witness:
  "phrase_occurrences ''A Good taste!'' = [2]
   \<and> occurs_at (lower ''A Good taste!'') ''good taste'' 2
   \<and> masked_text ''A Good taste!'' ! 3 = blank
   \<and> masked_text ''A Good taste!'' ! 12 = CHR ''!''
   \<and> final_score NEGATIONS ''A Good taste!'' = Some (- 2)"
proof -
  note t = phrase_override_scored_once [of "''A Good taste!''"]
  have occ: "phrase_occurrences ''A Good taste!'' = [2]" by code_simp
  have len: "length (lower ''A Good taste!'') = 13" by (simp add: lower_def)
  have l12: "lower ''A Good taste!'' ! 12 = CHR ''!''" by code_simp
  have tok: "tokenize (masked_text ''A Good taste!'') = [''a'']" by code_simp
  have sc: "score (scan_tokens NEGATIONS 0 [''a'']) = 0" by code_simp
  have a: "occurs_at (lower ''A Good taste!'') ''good taste'' 2"
    using t occ by simp
  have k: "\<forall>k < 13. masked_text ''A Good taste!'' ! k =
         (if \<exists>i \<in> set [2::nat]. i \<le> k \<and> k < i + length ''good taste''
          then blank else lower ''A Good taste!'' ! k)"
    using t unfolding occ len by blast
  have b: "masked_text ''A Good taste!'' ! 3 = blank" using k by simp
  have c: "masked_text ''A Good taste!'' ! 12 = CHR ''!''" using k l12 by simp
  have d: "final_score NEGATIONS ''A Good taste!'' = Some (- 2)"
    using t by (simp only: occ tok sc) simp
  from occ a b c d show ?thesis by blast
qed

section \<open>Totality\<close>

lemma label_of_cases: "label_of s \<in> {''positive'', ''negative'', ''neutral''}"
  by (simp add: label_of_def)

text \<open>
  Claim C8.  For every text the analyser returns, and what it returns is one of the
  three labels: the loop over the phrase table ends, and no step of the analysis can
  fail.
\<close>

theorem analyze_sentiment_total:
  "\<exists>l. analyze_sentiment text = Some l \<and> l \<in> {''positive'', ''negative'', ''neutral''}"
proof (cases "text = [] \<or> strip text = []")
  case True
  then show ?thesis by (simp add: analyze_sentiment_def analyze_with_def)
next
  case False
  then have "analyze_sentiment text =
      Some (label_of (score (scan_tokens NEGATIONS (- 2 * int (length (phrase_occurrences text)))
                    (tokenize (masked_text text)))))"
    by (simp add: analyze_sentiment_def analyze_with_def final_score_eq)
  then show ?thesis using label_of_cases by blast
qed

section \<open>Texts without markers and blank texts\<close>

lemma scan_occurrences_none:
  assumes "\<forall>i. \<not> occurs_at s sub i"
  shows "scan_occurrences s sub start = []"
proof (cases "find_from s sub start")
  case None
  then show ?thesis by (simp add: scan_occurrences.simps)
next
  case (Some i)
  from find_from_Some(2,3) [OF Some] have "occurs_at s sub i" by (simp add: occurs_at_def)
  with assms show ?thesis by blast
qed

lemma masked_text_none:
  assumes "\<forall>i. \<not> occurs_at (lower text) ''good taste'' i"
  shows "phrase_occurrences text = []" and "masked_text text = lower text"
proof -
  show "phrase_occurrences text = []"
    unfolding phrase_occurrences_def using assms by (rule scan_occurrences_none)
  then show "masked_text text = lower text" by (simp add: masked_text_def mask_all_def)
qed

lemma tokenize_lower: "tokenize (lower text) = tokenize text"
  by (simp add: tokenize_def lower_idem)

lemma step_plain:
  assumes "token \<noteq> ''but''" "token \<notin> set negations" "negate_window st = 0" "\<not> after_but st"
  shows "token_step negations st token = st\<lparr>score := score st + word_delta token\<rparr>"
  using assms by (simp add: token_step_def word_delta_def)

lemma scan_plain:
  assumes "\<forall>t \<in> set ts. t \<noteq> ''but'' \<and> t \<notin> set negations"
    and "negate_window st = 0" "\<not> after_but st"
  shows "score (foldl (token_step negations) st ts) = score st + (\<Sum>t\<leftarrow>ts. word_delta t)"
  using assms
proof (induction ts arbitrary: st)
  case Nil
  then show ?case by simp
next
  case (Cons t ts)
  have s: "token_step negations st t = st\<lparr>score := score st + word_delta t\<rparr>"
    using Cons.prems by (intro step_plain) simp_all
  have "score (foldl (token_step negations) (st\<lparr>score := score st + word_delta t\<rparr>) ts) =
      score (st\<lparr>score := score st + word_delta t\<rparr>) + (\<Sum>t\<leftarrow>ts. word_delta t)"
    using Cons.prems by (intro Cons.IH) simp_all
  then show ?case by (simp add: s)
qed

lemma sum_word_delta:
  "(\<Sum>t\<leftarrow>ts. word_delta t) =
     int (length (filter (\<lambda>t. t \<in> set POSITIVE_WORDS) ts))
     - int (length (filter (\<lambda>t. t \<in> set NEGATIVE_WORDS) ts))"
proof (induction ts)
  case Nil
  then show ?case by simp
next
  case (Cons t ts)
  have "t \<in> set POSITIVE_WORDS \<Longrightarrow> t \<notin> set NEGATIVE_WORDS"
    using positive_word_plain by blast
  with Cons show ?case by (simp add: word_delta_def)
qed

lemma good_taste_no_blank: "\<forall>c \<in> set s. space_char c \<Longrightarrow> \<not> occurs_at s ''good taste'' i"
proof
  assume sp: "\<forall>c \<in> set s. space_char c" and o: "occurs_at s ''good taste'' i"
  from o have i: "i < length s" and t: "take (length ''good taste'') (drop i s) = ''good taste''"
    by (simp_all add: occurs_at_def)
  from t have "hd (take (length ''good taste'') (drop i s)) = CHR ''g''" by simp
  then have "s ! i = CHR ''g''" using i by (simp add: hd_drop_conv_nth)
  then have "CHR ''g'' \<in> set s" using i nth_mem by metis
  with sp have "space_char CHR ''g''" by blast
  then show False by (simp add: space_char_def)
qed

lemma final_score_blank:
  assumes "\<forall>c \<in> set text. space_char c"
  shows "final_score negations text = Some 0"
proof -
  have lt: "lower text = text" using assms by (rule lower_blank)
  have "\<forall>i. \<not> occurs_at (lower text) ''good taste'' i"
    using assms good_taste_no_blank by (simp add: lt)
  note m = masked_text_none [OF this]
  have "tokenize (masked_text text) = []"
    using assms by (simp add: m lt tokenize_blank)
  then show ?thesis by (simp add: final_score_sum m scan_tokens_def)
qed

lemma guard_blank: "(text = [] \<or> strip text = []) = (\<forall>c \<in> set text. space_char c)"
  using strip_Nil strip_blank by auto

text \<open>
  Claim C5.  When no token of the text is ``but'' or a negation marker and no phrase of
  the phrase table occurs in the lowercased text, the final score is the number of
  tokens in the positive set minus the number of tokens in the negative set, and the
  label returned is the label of that number.
\<close>

theorem plain_text_score:
  assumes "\<forall>t \<in> set (tokenize text). t \<noteq> ''but'' \<and> t \<notin> set NEGATIONS"
    and "\<forall>(phrase, w) \<in> set PHRASE_SENTIMENT. \<forall>i. \<not> occurs_at (lower text) phrase i"
  shows "final_score NEGATIONS text =
           Some (int (length (filter (\<lambda>t. t \<in> set POSITIVE_WORDS) (tokenize text)))
                 - int (length (filter (\<lambda>t. t \<in> set NEGATIVE_WORDS) (tokenize text))))
         \<and> analyze_sentiment text =
           Some (label_of (int (length (filter (\<lambda>t. t \<in> set POSITIVE_WORDS) (tokenize text)))
                 - int (length (filter (\<lambda>t. t \<in> set NEGATIVE_WORDS) (tokenize text)))))"
proof -
  let ?n = "int (length (filter (\<lambda>t. t \<in> set POSITIVE_WORDS) (tokenize text)))
            - int (length (filter (\<lambda>t. t \<in> set NEGATIVE_WORDS) (tokenize text)))"
  have no: "\<forall>i. \<not> occurs_at (lower text) ''good taste'' i"
    using assms(2) by (simp add: PHRASE_SENTIMENT_def)
  note m = masked_text_none [OF no]
  have tk: "tokenize (masked_text text) = tokenize text" by (simp add: m tokenize_lower)
  have "score (scan_tokens NEGATIONS 0 (tokenize text)) = 0 + (\<Sum>t\<leftarrow>tokenize text. word_delta t)"
    unfolding scan_tokens_def using assms(1) by (subst scan_plain) simp_all
  then have fs: "final_score NEGATIONS text = Some ?n"
    by (simp add: final_score_sum m(1) tk sum_word_delta)
  show ?thesis
  proof (cases "text = [] \<or> strip text = []")
    case False
    then have "analyze_sentiment text = Some (label_of ?n)"
      by (simp add: analyze_sentiment_def analyze_with_def fs)
    with fs show ?thesis by simp
  next
    case True
    then have b: "\<forall>c \<in> set text. space_char c" by (simp only: guard_blank)
    then have "tokenize text = []" by (rule tokenize_blank)
    then have "label_of ?n = ''neutral''" by (simp add: label_of_def)
    moreover have "analyze_sentiment text = Some ''neutral''"
      using True by (simp add: analyze_sentiment_def analyze_with_def)
    ultimately show ?thesis using fs by simp
  qed
qed

theorem plain_text_score_witness:
  "tokenize ''Great food, nice place; bad parking'' =
     [''great'', ''food'', ''nice'', ''place'', ''bad'', ''parking'']
   \<and> final_score NEGATIONS ''Great food, nice place; bad parking'' = Some 1
   \<and> analyze_sentiment ''Great food, nice place; bad parking'' = Some ''positive''"
proof -
  let ?T = "''Great food, nice place; bad parking''"
  have tk: "tokenize ?T = [''great'', ''food'', ''nice'', ''place'', ''bad'', ''parking'']"
    by code_simp
  have h1: "\<forall>t \<in> set (tokenize ?T). t \<noteq> ''but'' \<and> t \<notin> set NEGATIONS"
    unfolding tk by (simp add: NEGATIONS_def)
  have "scan_occurrences (lower ?T) ''good taste'' 0 = []" by code_simp
  then have "find_from (lower ?T) ''good taste'' 0 = None"
    by (simp add: scan_occurrences.simps split: option.splits)
  then have "\<forall>i. \<not> occurs_at (lower ?T) ''good taste'' i"
    using find_from_None [of "lower ?T" "''good taste''" 0] by (auto simp: occurs_at_def)
  then have h2: "\<forall>(phrase, w) \<in> set PHRASE_SENTIMENT. \<forall>i. \<not> occurs_at (lower ?T) phrase i"
    by (simp add: PHRASE_SENTIMENT_def)
  have p: "int (length (filter (\<lambda>t. t \<in> set POSITIVE_WORDS) (tokenize ?T)))
           - int (length (filter (\<lambda>t. t \<in> set NEGATIVE_WORDS) (tokenize ?T))) = 1"
    unfolding tk by (simp add: POSITIVE_WORDS_def NEGATIVE_WORDS_def)
  have l: "label_of 1 = ''positive''" by (simp add: label_of_def)
  from plain_text_score [OF h1 h2] have "final_score NEGATIONS ?T = Some 1"
    and "analyze_sentiment ?T = Some ''positive''"
    unfolding p l by simp_all
  with tk show ?thesis by simp
qed

text \<open>
  Claim C6.  Whatever final score \<open>s\<close> a text has, the label returned for the text is
  ``positive'' when \<open>s > 0\<close>, ``negative'' when \<open>s < 0\<close> and ``neutral'' when \<open>s = 0\<close>.  A
  text that is empty or holds whitespace only is answered ``neutral'' by the guard at
  the start; its final score would be 0, so the guard cannot be told from the
  scoring.
\<close>

theorem label_follows_score:
  "(final_score NEGATIONS text = Some s \<longrightarrow>
      analyze_sentiment text =
        Some (if 0 < s then ''positive'' else if s < 0 then ''negative'' else ''neutral''))
   \<and> ((\<forall>c \<in> set text. space_char c) \<longrightarrow>
        analyze_sentiment text = Some ''neutral'' \<and> final_score NEGATIONS text = Some 0)"
proof (intro conjI impI)
  assume fs: "final_score NEGATIONS text = Some s"
  show "analyze_sentiment text =
        Some (if 0 < s then ''positive'' else if s < 0 then ''negative'' else ''neutral'')"
  proof (cases "text = [] \<or> strip text = []")
    case False
    then show ?thesis by (simp add: analyze_sentiment_def analyze_with_def fs label_of_def)
  next
    case True
    then have "\<forall>c \<in> set text. space_char c" by (simp only: guard_blank)
    then have "final_score NEGATIONS text = Some 0" by (rule final_score_blank)
    with fs have "s = 0" by simp
    then show ?thesis using True by (simp add: analyze_sentiment_def analyze_with_def)
  qed
next
  assume b: "\<forall>c \<in> set text. space_char c"
  then have "text = [] \<or> strip text = []" by (simp only: guard_blank)
  then show "analyze_sentiment text = Some ''neutral''"
    by (simp add: analyze_sentiment_def analyze_with_def)
  show "final_score NEGATIONS text = Some 0" using b by (rule final_score_blank)
qed

theorem label_follows_score_witness:
  "final_score NEGATIONS ''not good'' = Some (- 1)
   \<and> analyze_sentiment ''not good'' = Some ''negative''
   \<and> space_char blank \<and> space_char (CHR 0x09)
   \<and> analyze_sentiment [blank, CHR 0x09, blank] = Some ''neutral''
   \<and> final_score NEGATIONS [blank, CHR 0x09, blank] = Some 0"
proof -
  have fs: "final_score NEGATIONS ''not good'' = Some (- 1)" by code_simp
  have a: "analyze_sentiment ''not good'' = Some ''negative''"
    using label_follows_score [of "''not good''" "- 1"] fs by simp
  have s1: "space_char blank" by (simp add: space_char_def blank_def)
  have s2: "space_char (CHR 0x09)" by (simp add: space_char_def)
  have "\<forall>c \<in> set [blank, CHR 0x09, blank]. space_char c" using s1 s2 by simp
  with label_follows_score [of "[blank, CHR 0x09, blank]" 0]
  have b: "analyze_sentiment [blank, CHR 0x09, blank] = Some ''neutral''
      \<and> final_score NEGATIONS [blank, CHR 0x09, blank] = Some 0"
    by blast
  from fs a s1 s2 b show ?thesis by blast
qed

section \<open>The tokens\<close>

text \<open>
  Claim C7, as the code has it.  The tokenizer lowercases the text and emits, in order,
  the maximal runs of word characters and apostrophes with the apostrophes at the two
  ends of each run removed, leaving out the runs that consist of apostrophes only.
  Every character of a token is a word character or an apostrophe, and a text that is
  empty or holds whitespace only has no token.  The claim as written, that the tokens
  are exactly the maximal runs, fails on a quoted word.
\<close>

theorem tokenize_trims_runs:
  "tokenize text = filter (\<lambda>t. t \<noteq> []) (map strip_apostrophes (runs token_char (lower text)))
   \<and> (\<forall>t \<in> set (tokenize text). \<forall>c \<in> set t. token_char c)
   \<and> ((\<forall>c \<in> set text. space_char c) \<longrightarrow> tokenize text = [])"
proof (intro conjI impI)
  show "tokenize text = filter (\<lambda>t. t \<noteq> []) (map strip_apostrophes (runs token_char (lower text)))"
    by (simp only: tokenize_trimmed_runs trimmed_runs_def)
  show "\<forall>t \<in> set (tokenize text). \<forall>c \<in> set t. token_char c"
    using trimmed_runs_elems(4) by (simp only: tokenize_trimmed_runs) blast
next
  assume "\<forall>c \<in> set text. space_char c"
  then show "tokenize text = []" by (rule tokenize_blank)
qed

theorem tokenize_trims_runs_witness:
  "runs token_char (lower ''Rock 'n' roll, ' don't!'') =
     [''rock'', [CHR 0x27, CHR ''n'', CHR 0x27], ''roll'', [CHR 0x27], ''don't'']
   \<and> tokenize ''Rock 'n' roll, ' don't!'' = [''rock'', ''n'', ''roll'', ''don't'']
   \<and> token_char (CHR ''n'') \<and> space_char blank \<and> tokenize [blank, blank] = []"
proof -
  let ?T = "''Rock 'n' roll, ' don't!''"
  have r: "runs token_char (lower ?T) =
       [''rock'', [CHR 0x27, CHR ''n'', CHR 0x27], ''roll'', [CHR 0x27], ''don't'']"
    by code_simp
  have s: "filter (\<lambda>t. t \<noteq> []) (map strip_apostrophes
       [''rock'', [CHR 0x27, CHR ''n'', CHR 0x27], ''roll'', [CHR 0x27], ''don't''])
       = [''rock'', ''n'', ''roll'', ''don't'']"
    by code_simp
  note t = tokenize_trims_runs [of ?T]
  have a: "tokenize ?T = [''rock'', ''n'', ''roll'', ''don't'']"
    using t unfolding r s by blast
  have "\<forall>t \<in> set (tokenize ?T). \<forall>c \<in> set t. token_char c" using t by blast
  then have b: "token_char (CHR ''n'')" unfolding a by simp
  have c: "space_char blank" by (simp add: space_char_def blank_def)
  then have "\<forall>c \<in> set [blank, blank]. space_char c" by simp
  with tokenize_trims_runs [of "[blank, blank]"] have d: "tokenize [blank, blank] = []" by blast
  from r a b c d show ?thesis by blast
qed

text \<open>
  Claim C7 as written fails: in ``rock 'n' roll'' the run \<open>'n'\<close> is maximal, and the
  token emitted for it is \<open>n\<close>.
\<close>

theorem tokenize_not_maximal_runs:
  "tokenize ''rock 'n' roll'' \<noteq> runs token_char (lower ''rock 'n' roll'')"
  by code_simp

lemma step_same_negations:
  "(token \<in> set negs1) = (token \<in> set negs2) \<Longrightarrow>
     token_step negs1 st token = token_step negs2 st token"
  by (simp add: token_step_def)

lemma scan_same_negations:
  "\<forall>t \<in> set ts. (t \<in> set negs1) = (t \<in> set negs2) \<Longrightarrow>
     foldl (token_step negs1) st ts = foldl (token_step negs2) st ts"
proof (induction ts arbitrary: st)
  case Nil
  then show ?case by simp
next
  case (Cons t ts)
  have "token_step negs1 st t = token_step negs2 st t"
    using Cons.prems by (intro step_same_negations) simp
  then show ?case using Cons by simp
qed

text \<open>
  Claim C10, as the code has it.  Every token is non-empty and begins and ends with a
  word character.  That does not keep the marker \<open>n't\<close> away: it begins and ends with a
  letter, and it is a token of any text in which it stands as a word of its own.  On
  such a text the entry is used and its removal changes the label.  Removing the entry
  leaves the label as it is on every text whose masked text has no token \<open>n't\<close>.
\<close>

theorem tokens_word_ends:
  "(\<forall>t \<in> set (tokenize text). t \<noteq> [] \<and> word_char (hd t) \<and> word_char (last t))
   \<and> (''n't'' \<notin> set (tokenize (masked_text text)) \<longrightarrow>
        analyze_with (removeAll ''n't'' NEGATIONS) text = analyze_sentiment text)"
proof (intro conjI impI)
  show "\<forall>t \<in> set (tokenize text). t \<noteq> [] \<and> word_char (hd t) \<and> word_char (last t)"
    using trimmed_runs_elems(1,2,3) by (simp only: tokenize_trimmed_runs) blast
next
  assume n: "''n't'' \<notin> set (tokenize (masked_text text))"
  have "\<forall>t \<in> set (tokenize (masked_text text)).
      (t \<in> set (removeAll ''n't'' NEGATIONS)) = (t \<in> set NEGATIONS)"
    using n by auto
  then have "scan_tokens (removeAll ''n't'' NEGATIONS) s0 (tokenize (masked_text text)) =
      scan_tokens NEGATIONS s0 (tokenize (masked_text text))" for s0
    unfolding scan_tokens_def by (rule scan_same_negations)
  then have "final_score (removeAll ''n't'' NEGATIONS) text = final_score NEGATIONS text"
    by (simp only: final_score_eq)
  then show "analyze_with (removeAll ''n't'' NEGATIONS) text = analyze_sentiment text"
    by (simp add: analyze_sentiment_def analyze_with_def)
qed

theorem tokens_word_ends_witness:
  "tokenize ''It isn't good'' = [''it'', ''isn't'', ''good'']
   \<and> word_char (CHR ''i'') \<and> word_char (CHR ''t'')
   \<and> ''n't'' \<notin> set (tokenize (masked_text ''It isn't good''))
   \<and> analyze_with (removeAll ''n't'' NEGATIONS) ''It isn't good'' = Some ''negative''"
proof -
  let ?T = "''It isn't good''"
  note t = tokens_word_ends [of ?T]
  have tk: "tokenize ?T = [''it'', ''isn't'', ''good'']" by code_simp
  have "\<forall>t \<in> set (tokenize ?T). t \<noteq> [] \<and> word_char (hd t) \<and> word_char (last t)"
    using t by blast
  then have w: "word_char (CHR ''i'') \<and> word_char (CHR ''t'')" unfolding tk by simp
  have m: "tokenize (masked_text ?T) = [''it'', ''isn't'', ''good'']" by code_simp
  have n: "''n't'' \<notin> set (tokenize (masked_text ?T))" unfolding m by simp
  have a: "analyze_sentiment ?T = Some ''negative''" by code_simp
  have "analyze_with (removeAll ''n't'' NEGATIONS) ?T = Some ''negative''"
    using t n a by simp
  with tk w n show ?thesis by blast
qed

text \<open>
  Claim C10 as written fails: in ``is n't good'' the marker \<open>n't\<close> is a token, the label
  is ``negative'', and without the entry it is ``positive''.
\<close>

theorem nt_marker_reachable:
  "''n't'' \<in> set (tokenize ''is n't good'')
   \<and> analyze_sentiment ''is n't good'' = Some ''negative''
   \<and> analyze_with (removeAll ''n't'' NEGATIONS) ''is n't good'' = Some ''positive''"
  by code_simp

section \<open>Phrases inside words\<close>

lemma occurs_at_nth:
  assumes "occurs_at s sub i" "k < length sub"
  shows "s ! (i + k) = sub ! k"
proof -
  from assms(1) have le: "i + length sub \<le> length s"
    and t: "take (length sub) (drop i s) = sub" by (simp_all add: occurs_at_def)
  have "sub ! k = take (length sub) (drop i s) ! k" by (simp only: t)
  also have "\<dots> = drop i s ! k" using assms(2) by simp
  also have "\<dots> = s ! (i + k)" using le assms(2) by simp
  finally show ?thesis by simp
qed

lemma good_taste_letter: "0 < k \<Longrightarrow> k < length ''good taste'' \<Longrightarrow> ''good taste'' ! k \<noteq> CHR ''g''"
proof -
  assume k: "0 < k" "k < length ''good taste''"
  then have "''good taste'' ! k = tl ''good taste'' ! (k - 1)" by (simp add: nth_Cons')
  moreover have "tl ''good taste'' ! (k - 1) \<in> set (tl ''good taste'')"
    using k by (intro nth_mem) simp
  moreover have "CHR ''g'' \<notin> set (tl ''good taste'')" by simp
  ultimately show ?thesis by metis
qed

lemma good_taste_apart:
  assumes "occurs_at s ''good taste'' i" "occurs_at s ''good taste'' j" "i < j"
  shows "i + length ''good taste'' \<le> j"
proof (rule ccontr)
  assume "\<not> i + length ''good taste'' \<le> j"
  then have k: "0 < j - i" "j - i < length ''good taste''" using assms(3) by simp_all
  have "s ! (i + (j - i)) = ''good taste'' ! (j - i)" using assms(1) k(2) by (rule occurs_at_nth)
  moreover have "s ! (j + 0) = ''good taste'' ! 0" using assms(2) by (rule occurs_at_nth) simp
  moreover have "i + (j - i) = j" using assms(3) by simp
  ultimately have "''good taste'' ! (j - i) = CHR ''g''" by simp
  with good_taste_letter [OF k] show False by blast
qed

lemma every_occurrence_found:
  "sub = ''good taste'' \<Longrightarrow> occurs_at s sub j \<Longrightarrow> start \<le> j \<Longrightarrow>
     j \<in> set (scan_occurrences s sub start)"
proof (induction s sub start rule: scan_occurrences.induct)
  case (1 s sub start)
  have ne: "sub \<noteq> []" using "1.prems"(1) by simp
  from find_from_ex [OF "1.prems"(2,3)] obtain i where i: "find_from s sub start = Some i" "i \<le> j"
    by blast
  have unf: "scan_occurrences s sub start = i # scan_occurrences s sub (i + length sub)"
    using ne i(1) by (simp add: scan_occurrences.simps [of s sub start])
  show ?case
  proof (cases "i = j")
    case True
    then show ?thesis by (simp add: unf)
  next
    case False
    then have lt: "i < j" using i(2) by simp
    have oi: "occurs_at s sub i" using find_from_Some(2,3) [OF i(1)] by (simp add: occurs_at_def)
    have "i + length sub \<le> j"
      using good_taste_apart [of s i j] oi "1.prems"(1,2) lt by simp
    from "1.IH" [OF ne i(1) "1.prems"(1,2) this] show ?thesis by (simp add: unf)
  qed
qed

lemma sorted_apart_distinct:
  "0 < n \<Longrightarrow> sorted_wrt (\<lambda>i j. i + n \<le> j) (xs :: nat list) \<Longrightarrow> distinct xs"
  by (induction xs) auto

text \<open>
  Claim C9.  The phrase is looked for as a plain substring of the lowercased text, with
  no look at the characters around it: the occurrences scored are all the indices at
  which the phrase occurs, each once.  So wherever the lowercased text is some prefix,
  the phrase and some suffix, the index after the prefix is scored and its span is
  blank in the masked text.  In ``feelgood tastes'' the phrase inside the two words
  scores \<open>-2\<close> and leaves the fragments ``feel'' and ``s'' as tokens.
\<close>

theorem phrase_found_inside_words:
  "set (phrase_occurrences text) = {i. occurs_at (lower text) ''good taste'' i}
   \<and> distinct (phrase_occurrences text)
   \<and> apply_phrases PHRASE_SENTIMENT (lower text) 0 =
       Some (masked_text text, - 2 * int (length (phrase_occurrences text)))
   \<and> (lower text = pre @ ''good taste'' @ post \<longrightarrow>
        length pre \<in> set (phrase_occurrences text)
        \<and> (\<forall>k < length ''good taste''. masked_text text ! (length pre + k) = blank))
   \<and> masked_text ''feelgood tastes'' = ''feel          s''
   \<and> tokenize (masked_text ''feelgood tastes'') = [''feel'', ''s'']
   \<and> final_score NEGATIONS ''feelgood tastes'' = Some (- 2)"
proof (intro conjI impI)
  show "set (phrase_occurrences text) = {i. occurs_at (lower text) ''good taste'' i}"
  proof (intro set_eqI iffI)
    fix i assume "i \<in> set (phrase_occurrences text)"
    then show "i \<in> {i. occurs_at (lower text) ''good taste'' i}"
      using phrase_occurrences_genuine by simp
  next
    fix i assume "i \<in> {i. occurs_at (lower text) ''good taste'' i}"
    then have "occurs_at (lower text) ''good taste'' i" by simp
    then show "i \<in> set (phrase_occurrences text)"
      unfolding phrase_occurrences_def by (intro every_occurrence_found) simp_all
  qed
  show "distinct (phrase_occurrences text)"
    unfolding phrase_occurrences_def
    by (rule sorted_apart_distinct [OF _ scan_occurrences_apart]) simp
  show "apply_phrases PHRASE_SENTIMENT (lower text) 0 =
       Some (masked_text text, - 2 * int (length (phrase_occurrences text)))"
    by (rule apply_phrases_masked)
  show "masked_text ''feelgood tastes'' = ''feel          s''" by code_simp
  show "tokenize (masked_text ''feelgood tastes'') = [''feel'', ''s'']" by code_simp
  show "final_score NEGATIONS ''feelgood tastes'' = Some (- 2)" by code_simp
next
  assume eq: "lower text = pre @ ''good taste'' @ post"
  have o: "occurs_at (lower text) ''good taste'' (length pre)"
    unfolding eq by (simp add: occurs_at_def)
  show f: "length pre \<in> set (phrase_occurrences text)"
    unfolding phrase_occurrences_def using o by (intro every_occurrence_found) simp_all
  show "\<forall>k < length ''good taste''. masked_text text ! (length pre + k) = blank"
  proof (intro allI impI)
    fix k assume k: "k < length ''good taste''"
    have "length pre + length ''good taste'' \<le> length (lower text)"
      using o by (simp add: occurs_at_def)
    then have "length pre + k < length (lower text)" using k by simp
    from nth_masked_text [OF this] f k show "masked_text text ! (length pre + k) = blank"
      by auto
  qed
qed

theorem phrase_found_inside_words_witness:
  "lower ''Feelgood Tastes'' = ''feel'' @ ''good taste'' @ ''s''
   \<and> 4 \<in> set (phrase_occurrences ''Feelgood Tastes'')
   \<and> masked_text ''Feelgood Tastes'' ! 4 = blank
   \<and> masked_text ''Feelgood Tastes'' ! 13 = blank"
proof -
  let ?T = "''Feelgood Tastes''"
  have eq: "lower ?T = ''feel'' @ ''good taste'' @ ''s''" by code_simp
  from phrase_found_inside_words [of ?T "''feel''" "''s''"] eq
  have a: "length ''feel'' \<in> set (phrase_occurrences ?T)"
    and b: "\<forall>k < length ''good taste''. masked_text ?T ! (length ''feel'' + k) = blank"
    by blast+
  have "length ''feel'' = 4" by simp
  with a have a': "4 \<in> set (phrase_occurrences ?T)" by (simp only:)
  have k0: "(0::nat) < length ''good taste''" and k9: "(9::nat) < length ''good taste''"
    by simp_all
  from b k0 k9 have "masked_text ?T ! (length ''feel'' + 0) = blank"
    and "masked_text ?T ! (length ''feel'' + 9) = blank" by blast+
  moreover have "length ''feel'' + 0 = 4" and "length ''feel'' + 9 = 13" by simp_all
  ultimately have "masked_text ?T ! 4 = blank" and "masked_text ?T ! 13 = blank"
    by (simp_all only:)
  with eq a' show ?thesis by blast
qed

end
